theory Spec2Isabelle
  imports Complex_Main
begin

section \<open>The API mediation layer of server.js\<close>

text \<open>
  The server keeps three module-level objects: \<^verbatim>\<open>cache\<close> (one JavaScript \<^verbatim>\<open>Map\<close> per
  request type), \<^verbatim>\<open>requestStats\<close> and \<^verbatim>\<open>rateLimiter\<close>. They are modelled as one record
  that every function takes and returns.

  Time is the value of \<^verbatim>\<open>Date.now()\<close>, an integer number of milliseconds. Every call of
  \<^verbatim>\<open>Date.now()\<close> in the source is a separate argument of the model, so that no theorem
  depends on two readings being equal or ordered unless it says so.
\<close>

subsection \<open>Data\<close>

datatype category = Geocoding | Places | Details

text \<open>The property name under which a request type is stored in the three objects.\<close>

fun type_name :: "category \<Rightarrow> string" where
  "type_name Geocoding = ''geocoding''"
| "type_name Places = ''places''"
| "type_name Details = ''details''"

text \<open>\<^verbatim>\<open>response.data\<close>: the provider's JSON body, of which the server reads only \<^verbatim>\<open>status\<close>.\<close>

record 'p response_data =
  status :: string
  body :: 'p

text \<open>The object stored in a cache map (lines 466-470).\<close>

record 'p cache_item =
  data :: "'p response_data"
  timestamp :: int
  lastAccessed :: int

text \<open>
  A JavaScript \<^verbatim>\<open>Map\<close> with string keys, as the list of its entries in insertion order
  (the order of \<^verbatim>\<open>Map.prototype.entries\<close>). \<^verbatim>\<open>set\<close> on a key that is present replaces
  the value and keeps the entry's position; on a new key it appends.
\<close>

type_synonym 'p cache_map = "(string \<times> 'p cache_item) list"

fun Map_get :: "string \<Rightarrow> 'p cache_map \<Rightarrow> 'p cache_item option" where
  "Map_get k [] = None"
| "Map_get k ((k', v) # m) = (if k' = k then Some v else Map_get k m)"

fun Map_set :: "string \<Rightarrow> 'p cache_item \<Rightarrow> 'p cache_map \<Rightarrow> 'p cache_map" where
  "Map_set k v [] = [(k, v)]"
| "Map_set k v ((k', v') # m) = (if k' = k then (k, v) # m else (k', v') # Map_set k v m)"

fun Map_delete :: "string \<Rightarrow> 'p cache_map \<Rightarrow> 'p cache_map" where
  "Map_delete k [] = []"
| "Map_delete k ((k', v') # m) = (if k' = k then m else (k', v') # Map_delete k m)"

record 'p cache_store =
  geocoding_cache :: "'p cache_map"
  places_cache :: "'p cache_map"
  details_cache :: "'p cache_map"

record request_stats =
  total_stat :: nat
  geocoding_stat :: nat
  places_stat :: nat
  details_stat :: nat
  limit_stat :: nat
  lastReset :: int

record rate_limiter =
  lastGeocodeRequest :: int
  lastPlacesRequest :: int
  lastDetailsRequest :: int
  minInterval :: int

record 'p server =
  cache :: "'p cache_store"
  requestStats :: request_stats
  rateLimiter :: rate_limiter

text \<open>\<^verbatim>\<open>cache[type]\<close> and \<^verbatim>\<open>requestStats[type]\<close>, read and written.\<close>

fun cache_of :: "'p cache_store \<Rightarrow> category \<Rightarrow> 'p cache_map" where
  "cache_of c Geocoding = geocoding_cache c"
| "cache_of c Places = places_cache c"
| "cache_of c Details = details_cache c"

fun cache_upd :: "category \<Rightarrow> 'p cache_map \<Rightarrow> 'p cache_store \<Rightarrow> 'p cache_store" where
  "cache_upd Geocoding m c = c\<lparr>geocoding_cache := m\<rparr>"
| "cache_upd Places m c = c\<lparr>places_cache := m\<rparr>"
| "cache_upd Details m c = c\<lparr>details_cache := m\<rparr>"

fun stat_of :: "request_stats \<Rightarrow> category \<Rightarrow> nat" where
  "stat_of r Geocoding = geocoding_stat r"
| "stat_of r Places = places_stat r"
| "stat_of r Details = details_stat r"

fun stat_incr :: "category \<Rightarrow> request_stats \<Rightarrow> request_stats" where
  "stat_incr Geocoding r = r\<lparr>geocoding_stat := geocoding_stat r + 1\<rparr>"
| "stat_incr Places r = r\<lparr>places_stat := places_stat r + 1\<rparr>"
| "stat_incr Details r = r\<lparr>details_stat := details_stat r + 1\<rparr>"

text \<open>The rate limiter's field for a request type, as the \<^verbatim>\<open>switch\<close> pairs them.\<close>

fun last_request :: "rate_limiter \<Rightarrow> category \<Rightarrow> int" where
  "last_request rl Geocoding = lastGeocodeRequest rl"
| "last_request rl Places = lastPlacesRequest rl"
| "last_request rl Details = lastDetailsRequest rl"

fun last_request_upd :: "category \<Rightarrow> int \<Rightarrow> rate_limiter \<Rightarrow> rate_limiter" where
  "last_request_upd Geocoding t rl = rl\<lparr>lastGeocodeRequest := t\<rparr>"
| "last_request_upd Places t rl = rl\<lparr>lastPlacesRequest := t\<rparr>"
| "last_request_upd Details t rl = rl\<lparr>lastDetailsRequest := t\<rparr>"

subsection \<open>Constants (lines 287-298)\<close>

fun CACHE_EXPIRY :: "category \<Rightarrow> int" where
  "CACHE_EXPIRY Geocoding = 30 * 60 * 1000"
| "CACHE_EXPIRY Places = 15 * 60 * 1000"
| "CACHE_EXPIRY Details = 60 * 60 * 1000"

fun CACHE_LIMITS :: "category \<Rightarrow> nat" where
  "CACHE_LIMITS Geocoding = 1000"
| "CACHE_LIMITS Places = 500"
| "CACHE_LIMITS Details = 500"

text \<open>The objects as the module creates them; \<open>t0\<close> is \<^verbatim>\<open>Date.now()\<close> at start-up.\<close>

definition initial_server :: "int \<Rightarrow> 'p server" where
  "initial_server t0 =
     \<lparr>cache = \<lparr>geocoding_cache = [], places_cache = [], details_cache = []\<rparr>,
      requestStats = \<lparr>total_stat = 0, geocoding_stat = 0, places_stat = 0, details_stat = 0,
                      limit_stat = 50, lastReset = t0\<rparr>,
      rateLimiter = \<lparr>lastGeocodeRequest = 0, lastPlacesRequest = 0, lastDetailsRequest = 0,
                     minInterval = 100\<rparr>\<rparr>"

subsection \<open>rateLimiter.canMakeRequest (lines 317-345)\<close>

text \<open>
  The \<^verbatim>\<open>switch\<close> reads the type's field into \<^verbatim>\<open>lastRequest\<close> and overwrites the field with
  \<^verbatim>\<open>now\<close> in the same case, before the interval is compared. Any other string returns
  false from the \<^verbatim>\<open>default\<close> case.
\<close>

definition interval_check :: "int \<Rightarrow> int \<Rightarrow> rate_limiter \<Rightarrow> bool" where
  "interval_check now lastRequest rl = (if now - lastRequest < minInterval rl then False else True)"

definition canMakeRequest :: "string \<Rightarrow> int \<Rightarrow> rate_limiter \<Rightarrow> bool \<times> rate_limiter" where
  "canMakeRequest type now rl =
     (if type = ''geocoding'' then
        (interval_check now (lastGeocodeRequest rl) rl, rl\<lparr>lastGeocodeRequest := now\<rparr>)
      else if type = ''places'' then
        (interval_check now (lastPlacesRequest rl) rl, rl\<lparr>lastPlacesRequest := now\<rparr>)
      else if type = ''details'' then
        (interval_check now (lastDetailsRequest rl) rl, rl\<lparr>lastDetailsRequest := now\<rparr>)
      else (False, rl))"

subsection \<open>checkSessionReset (lines 349-366) and POST /api/stats/reset (lines 578-593)\<close>

text \<open>
  The \<^verbatim>\<open>forEach\<close> zeroes every numeric property except \<^verbatim>\<open>limit\<close>, so also \<^verbatim>\<open>lastReset\<close>,
  which is assigned a fresh \<^verbatim>\<open>Date.now()\<close> afterwards.
\<close>

definition zero_counters :: "request_stats \<Rightarrow> request_stats" where
  "zero_counters r =
     r\<lparr>total_stat := 0, geocoding_stat := 0, places_stat := 0, details_stat := 0, lastReset := 0\<rparr>"

definition clear_caches :: "'p cache_store" where
  "clear_caches = \<lparr>geocoding_cache = [], places_cache = [], details_cache = []\<rparr>"

definition checkSessionReset :: "int \<Rightarrow> int \<Rightarrow> 'p server \<Rightarrow> 'p server" where
  "checkSessionReset now1 now2 s =
     (if now1 - lastReset (requestStats s) > 24 * 60 * 60 * 1000
      then s\<lparr>requestStats := (zero_counters (requestStats s))\<lparr>lastReset := now2\<rparr>,
             cache := clear_caches\<rparr>
      else s)"

definition stats_reset :: "int \<Rightarrow> 'p server \<Rightarrow> 'p server" where
  "stats_reset now s =
     s\<lparr>requestStats := (zero_counters (requestStats s))\<lparr>lastReset := now\<rparr>,
       cache := clear_caches\<rparr>"

subsection \<open>manageCacheSize (lines 369-388)\<close>

text \<open>
  \<^verbatim>\<open>Array.prototype.sort\<close> is stable and the comparator is the difference of two integer
  timestamps, so the entries come out ascending by timestamp, equal timestamps in insertion
  order: this is \<^const>\<open>sort_key\<close>. \<^verbatim>\<open>Math.floor(entries.length * 0.2)\<close> is \<open>n div 5\<close>:
  the double nearest to one fifth exceeds it by a factor \<open>1 + 2\<^sup>-\<^sup>5\<^sup>4\<close>, which moves
  no product with a cache size across an integer. \<open>purge_oldest\<close> is the body of the
  function for a given limit and map.
\<close>

definition purge_oldest :: "nat \<Rightarrow> 'p cache_map \<Rightarrow> 'p cache_map" where
  "purge_oldest cap cacheMap =
     (if length cacheMap > cap then
        (let entries = sort_key (\<lambda>e. timestamp (snd e)) cacheMap;
             removeCount = length entries div 5
         in fold (\<lambda>e m. Map_delete (fst e) m) (take removeCount entries) cacheMap)
      else cacheMap)"

definition manageCacheSize :: "category \<Rightarrow> 'p server \<Rightarrow> 'p server" where
  "manageCacheSize type s =
     s\<lparr>cache := cache_upd type (purge_oldest (CACHE_LIMITS type) (cache_of (cache s) type))
                  (cache s)\<rparr>"

text \<open>Lines 466-473 on one map: \<^verbatim>\<open>set\<close> followed by the size check.\<close>

definition cache_insert :: "nat \<Rightarrow> 'p cache_map \<Rightarrow> string \<times> 'p cache_item \<Rightarrow> 'p cache_map" where
  "cache_insert cap m kv = purge_oldest cap (Map_set (fst kv) (snd kv) m)"

subsection \<open>handleCachedRequest (lines 420-493)\<close>

text \<open>
  The errors the function throws, named after the kinds of the specification; \<open>message\<close>
  is the \<^verbatim>\<open>Error\<close>'s text. A rejected \<^verbatim>\<open>api.get\<close> (transport failure, timeout, HTTP error)
  is rethrown by the \<^verbatim>\<open>catch\<close> with the message it came with.
\<close>

datatype error = QuotaExceeded | RateLimited | UpstreamError string

fun message :: "error \<Rightarrow> string" where
  "message QuotaExceeded = ''Request limit reached''"
| "message RateLimited = ''Rate limit reached, please try again in a moment''"
| "message (UpstreamError m) = m"

text \<open>What \<^verbatim>\<open>await api.get(apiUrl)\<close> gives: a response, or a rejection with a message.\<close>

datatype 'p api_outcome = Responded "'p response_data" | Failed string

text \<open>
  The function has one suspension point, the \<^verbatim>\<open>await\<close> of line 445. Everything before it
  runs without interruption and either returns, throws, or issues the external call
  (\<open>Await\<close>); the rest runs when the call settles, possibly after other requests have run.
\<close>

datatype 'p suspended = Return "'p response_data" | Throw error | Await

text \<open>Lines 422-423: the cached item, if there is one and it has not expired.\<close>

definition cache_fresh :: "category \<Rightarrow> string \<Rightarrow> int \<Rightarrow> 'p server \<Rightarrow> 'p cache_item option" where
  "cache_fresh type cacheKey now s =
     (case Map_get cacheKey (cache_of (cache s) type) of
        None \<Rightarrow> None
      | Some cachedItem \<Rightarrow>
          if now - timestamp cachedItem < CACHE_EXPIRY type then Some cachedItem else None)"

text \<open>
  Lines 420-445. \<open>now1\<close> is the reading of line 423; \<open>now2\<close> is the next one, taken at
  line 425 on a hit and in \<^verbatim>\<open>canMakeRequest\<close> otherwise.
\<close>

definition handleCachedRequest_sync ::
  "category \<Rightarrow> string \<Rightarrow> int \<Rightarrow> int \<Rightarrow> 'p server \<Rightarrow> 'p suspended \<times> 'p server" where
  "handleCachedRequest_sync type cacheKey now1 now2 s =
     (case cache_fresh type cacheKey now1 s of
        Some cachedItem \<Rightarrow>
          (Return (data cachedItem),
           s\<lparr>cache := cache_upd type
                 (Map_set cacheKey (cachedItem\<lparr>lastAccessed := now2\<rparr>) (cache_of (cache s) type))
                 (cache s)\<rparr>)
      | None \<Rightarrow>
          if total_stat (requestStats s) \<ge> limit_stat (requestStats s)
          then (Throw QuotaExceeded, s)
          else (case canMakeRequest (type_name type) now2 (rateLimiter s) of
                  (ok, rl) \<Rightarrow>
                    if \<not> ok then (Throw RateLimited, s\<lparr>rateLimiter := rl\<rparr>)
                    else (Await, s\<lparr>rateLimiter := rl\<rparr>)))"

text \<open>Lines 445-492, from the settled call on; \<open>now3\<close> and \<open>now4\<close> are lines 468 and 469.\<close>

definition handleCachedRequest_resume ::
  "category \<Rightarrow> string \<Rightarrow> 'p api_outcome \<Rightarrow> int \<Rightarrow> int \<Rightarrow> 'p server
     \<Rightarrow> (error + 'p response_data) \<times> 'p server" where
  "handleCachedRequest_resume type cacheKey outcome now3 now4 s =
     (case outcome of
        Failed msg \<Rightarrow> (Inl (UpstreamError msg), s)
      | Responded d \<Rightarrow>
          (let s1 = s\<lparr>requestStats :=
                        stat_incr type
                          ((requestStats s)\<lparr>total_stat := total_stat (requestStats s) + 1\<rparr>)\<rparr>
           in if status d \<noteq> ''OK'' \<and> status d \<noteq> ''ZERO_RESULTS''
              then (Inl (UpstreamError (''Google Maps API error: '' @ status d)), s1)
              else if status d = ''OK'' \<or> status d = ''ZERO_RESULTS''
              then (Inr d,
                    manageCacheSize type
                      (s1\<lparr>cache := cache_upd type
                            (Map_set cacheKey \<lparr>data = d, timestamp = now3, lastAccessed = now4\<rparr>
                               (cache_of (cache s1) type))
                            (cache s1)\<rparr>))
              else (Inr d, s1)))"

text \<open>The whole function when nothing else runs while the call is in flight.\<close>

definition handleCachedRequest ::
  "category \<Rightarrow> string \<Rightarrow> int \<Rightarrow> int \<Rightarrow> 'p api_outcome \<Rightarrow> int \<Rightarrow> int \<Rightarrow> 'p server
     \<Rightarrow> (error + 'p response_data) \<times> 'p server" where
  "handleCachedRequest type cacheKey now1 now2 outcome now3 now4 s =
     (case handleCachedRequest_sync type cacheKey now1 now2 s of
        (Return d, s1) \<Rightarrow> (Inr d, s1)
      | (Throw e, s1) \<Rightarrow> (Inl e, s1)
      | (Await, s1) \<Rightarrow> handleCachedRequest_resume type cacheKey outcome now3 now4 s1)"

subsection \<open>Requests that overlap\<close>

text \<open>
  The server is single-threaded, and requests interleave only at the \<^verbatim>\<open>await\<close>. A run of
  the server is a list of events: a request's synchronous part, the completion of an
  external call in flight, the session check of the middleware (lines 414-417), a manual
  reset. A completion for a call that is not in flight does nothing.
\<close>

datatype 'p event =
    Begin category string int int
  | Complete category string "'p api_outcome" int int
  | SessionCheck int int
  | ManualReset int

record 'p system =
  srv :: "'p server"
  inflight :: "(category \<times> string) list"

fun step :: "'p event \<Rightarrow> 'p system \<Rightarrow> 'p system" where
  "step (Begin c k now1 now2) y =
     (case handleCachedRequest_sync c k now1 now2 (srv y) of
        (Await, s1) \<Rightarrow> \<lparr>srv = s1, inflight = (c, k) # inflight y\<rparr>
      | (_, s1) \<Rightarrow> y\<lparr>srv := s1\<rparr>)"
| "step (Complete c k outcome now3 now4) y =
     (if (c, k) \<in> set (inflight y)
      then \<lparr>srv = snd (handleCachedRequest_resume c k outcome now3 now4 (srv y)),
            inflight = remove1 (c, k) (inflight y)\<rparr>
      else y)"
| "step (SessionCheck now1 now2) y = y\<lparr>srv := checkSessionReset now1 now2 (srv y)\<rparr>"
| "step (ManualReset now) y = y\<lparr>srv := stats_reset now (srv y)\<rparr>"

definition run :: "'p event list \<Rightarrow> int \<Rightarrow> 'p system" where
  "run evs t0 = fold step evs \<lparr>srv = initial_server t0, inflight = []\<rparr>"

text \<open>Every cache is a map (no key twice) and holds no more entries than its limit.\<close>

definition caches_ok :: "'p server \<Rightarrow> bool" where
  "caches_ok s \<longleftrightarrow>
     list_all (\<lambda>c. distinct (map fst (cache_of (cache s) c))
                  \<and> length (cache_of (cache s) c) \<le> CACHE_LIMITS c)
       [Geocoding, Places, Details]"

text \<open>
  Runs in which every call completes before the next request begins: each request is one
  step, its synchronous part followed at once by its completion.
\<close>

datatype 'p whole_event =
    Fetch category string int int "'p api_outcome" int int
  | Check int int
  | Reset int

fun expand :: "'p whole_event \<Rightarrow> 'p event list" where
  "expand (Fetch c k now1 now2 outcome now3 now4) =
     [Begin c k now1 now2, Complete c k outcome now3 now4]"
| "expand (Check now1 now2) = [SessionCheck now1 now2]"
| "expand (Reset now) = [ManualReset now]"

definition within_limit :: "'p system \<Rightarrow> bool" where
  "within_limit y \<longleftrightarrow>
     inflight y = [] \<and> total_stat (requestStats (srv y)) \<le> limit_stat (requestStats (srv y))"

subsection \<open>Address normalisation\<close>

text \<open>
  \<^verbatim>\<open>address.toLowerCase().trim()\<close> on strings of ASCII characters: the white space that
  \<^verbatim>\<open>trim\<close> removes is tab, line feed, vertical tab, form feed, carriage return and space.
\<close>

definition is_space :: "char \<Rightarrow> bool" where
  "is_space c = (of_char c \<in> {9, 10, 11, 12, 13, 32 :: nat})"

definition trim :: "string \<Rightarrow> string" where
  "trim a = rev (dropWhile is_space (rev (dropWhile is_space a)))"

definition lower_char :: "char \<Rightarrow> char" where
  "lower_char c =
     (if 65 \<le> (of_char c :: nat) \<and> (of_char c :: nat) \<le> 90
      then char_of (of_char c + 32 :: nat) else c)"

definition toLowerCase :: "string \<Rightarrow> string" where
  "toLowerCase a = map lower_char a"

subsection \<open>GET /api/geocode (lines 596-613)\<close>

text \<open>
  \<^verbatim>\<open>req.query.address\<close> is absent or a string. \<open>Status n msg\<close> is
  \<^verbatim>\<open>res.status(n).json({error: msg})\<close>, \<open>Json d\<close> is \<^verbatim>\<open>res.json(d)\<close>.
\<close>

datatype 'p reply = Json "'p response_data" | Status nat string

datatype 'p route_state = Replied "'p reply" | AwaitingUpstream

definition geocode_sync ::
  "string option \<Rightarrow> int \<Rightarrow> int \<Rightarrow> 'p server \<Rightarrow> 'p route_state \<times> 'p server" where
  "geocode_sync address now1 now2 s =
     (case address of
        None \<Rightarrow> (Replied (Status 400 ''Address is required''), s)
      | Some a \<Rightarrow>
          if a = [] then (Replied (Status 400 ''Address is required''), s)
          else (case handleCachedRequest_sync Geocoding (trim (toLowerCase a)) now1 now2 s of
                  (Return d, s1) \<Rightarrow> (Replied (Json d), s1)
                | (Throw e, s1) \<Rightarrow> (Replied (Status 500 (message e)), s1)
                | (Await, s1) \<Rightarrow> (AwaitingUpstream, s1)))"

definition geocode_resume ::
  "string \<Rightarrow> 'p api_outcome \<Rightarrow> int \<Rightarrow> int \<Rightarrow> 'p server \<Rightarrow> 'p reply \<times> 'p server" where
  "geocode_resume a outcome now3 now4 s =
     (case handleCachedRequest_resume Geocoding (trim (toLowerCase a)) outcome now3 now4 s of
        (Inr d, s1) \<Rightarrow> (Json d, s1)
      | (Inl e, s1) \<Rightarrow> (Status 500 (message e), s1))"

text \<open>The front end's own check before it calls the route (fetchCoordinates, line 58).\<close>

definition fetchCoordinates_rejects :: "string \<Rightarrow> bool" where
  "fetchCoordinates_rejects address = (trim address = [])"

subsection \<open>batchGeocode (lines 496-537) and POST /api/geocode/batch (lines 616-629)\<close>

text \<open>
  What the environment contributes to one \<^verbatim>\<open>handleCachedRequest\<close>: the four clock readings
  and the settlement of the external call, should the call be made.
\<close>

record 'p fetch_env =
  t_check :: int
  t_second :: int
  upstream :: "'p api_outcome"
  t_store :: int
  t_access :: int

text \<open>
  \<^verbatim>\<open>batch.map(async ...)\<close> runs every item's synchronous part at once, in order; an item
  is then settled or waits for its external call. The calls settle in some order, given
  as indices into the group; \<^verbatim>\<open>Promise.all\<close> waits for all of them, so the items the
  order leaves out are settled after it, front to back.
\<close>

datatype 'p slot = Settled "error + 'p response_data" | Pending "'p fetch_env"

fun slot_of :: "'p suspended \<Rightarrow> 'p fetch_env \<Rightarrow> 'p slot" where
  "slot_of (Return d) e = Settled (Inr d)"
| "slot_of (Throw err) e = Settled (Inl err)"
| "slot_of Await e = Pending e"

fun start_all ::
  "(string \<times> 'p fetch_env) list \<Rightarrow> 'p server \<Rightarrow> (string \<times> 'p slot) list \<times> 'p server" where
  "start_all [] s = ([], s)"
| "start_all ((address, e) # rest) s =
     (case handleCachedRequest_sync Geocoding (trim (toLowerCase address))
             (t_check e) (t_second e) s of
        (r, s1) \<Rightarrow>
          (case start_all rest s1 of
             (slots, s2) \<Rightarrow> ((address, slot_of r e) # slots, s2)))"

definition complete_slot ::
  "nat \<Rightarrow> (string \<times> 'p slot) list \<Rightarrow> 'p server \<Rightarrow> (string \<times> 'p slot) list \<times> 'p server" where
  "complete_slot i slots s =
     (if i < length slots then
        (case slots ! i of
           (address, Pending e) \<Rightarrow>
             (case handleCachedRequest_resume Geocoding (trim (toLowerCase address))
                     (upstream e) (t_store e) (t_access e) s of
                (r, s1) \<Rightarrow> (slots[i := (address, Settled r)], s1))
         | (address, Settled r) \<Rightarrow> (slots, s))
      else (slots, s))"

fun complete_in_order ::
  "nat list \<Rightarrow> (string \<times> 'p slot) list \<Rightarrow> 'p server \<Rightarrow> (string \<times> 'p slot) list \<times> 'p server" where
  "complete_in_order [] slots s = (slots, s)"
| "complete_in_order (i # rest) slots s =
     (case complete_slot i slots s of (slots1, s1) \<Rightarrow> complete_in_order rest slots1 s1)"

text \<open>
  The object an item's \<^verbatim>\<open>async\<close> function resolves to: \<^verbatim>\<open>{address, data}\<close>, or
  \<^verbatim>\<open>{address, error: error.message}\<close> from its \<^verbatim>\<open>catch\<close>.
\<close>

datatype 'p item_result = ItemData string "'p response_data" | ItemError string string

fun item_of :: "string \<Rightarrow> error + 'p response_data \<Rightarrow> 'p item_result" where
  "item_of address (Inr d) = ItemData address d"
| "item_of address (Inl err) = ItemError address (message err)"

fun settle_rest ::
  "(string \<times> 'p slot) list \<Rightarrow> 'p server \<Rightarrow> 'p item_result list \<times> 'p server" where
  "settle_rest [] s = ([], s)"
| "settle_rest ((address, Settled r) # rest) s =
     (case settle_rest rest s of (rs, s1) \<Rightarrow> (item_of address r # rs, s1))"
| "settle_rest ((address, Pending e) # rest) s =
     (case handleCachedRequest_resume Geocoding (trim (toLowerCase address))
             (upstream e) (t_store e) (t_access e) s of
        (r, s1) \<Rightarrow>
          (case settle_rest rest s1 of (rs, s2) \<Rightarrow> (item_of address r # rs, s2)))"

text \<open>
  Lines 522-528. \<^verbatim>\<open>if (result.error)\<close> is the truthiness of the message: an item whose
  error has the empty message would be pushed to \<^verbatim>\<open>results\<close> with no data.
\<close>

record 'p batch_result =
  results :: "(string \<times> 'p response_data option) list"
  errors :: "(string \<times> string) list"

fun collect :: "'p item_result \<Rightarrow> 'p batch_result \<Rightarrow> 'p batch_result" where
  "collect (ItemData address d) acc = acc\<lparr>results := results acc @ [(address, Some d)]\<rparr>"
| "collect (ItemError address msg) acc =
     (if msg \<noteq> [] then acc\<lparr>errors := errors acc @ [(address, msg)]\<rparr>
      else acc\<lparr>results := results acc @ [(address, None)]\<rparr>)"

text \<open>
  One turn of the \<^verbatim>\<open>for\<close> loop at index \<open>i\<close>. \<open>env n\<close> is the environment of the address at
  index \<open>n\<close>, \<open>ord i\<close> the order in which the calls of the group starting at \<open>i\<close> settle.
  The 200 ms pause between groups changes nothing the model holds.
\<close>

definition batch_group ::
  "nat \<Rightarrow> string list \<Rightarrow> (nat \<Rightarrow> 'p fetch_env) \<Rightarrow> (nat \<Rightarrow> nat list) \<Rightarrow> 'p batch_result
     \<Rightarrow> 'p server \<Rightarrow> 'p batch_result \<times> 'p server" where
  "batch_group i addresses env ord acc s =
     (let batch = take 5 (drop i addresses) in
      case start_all (zip batch (map env [i..<i + length batch])) s of
        (slots, s1) \<Rightarrow>
          (case complete_in_order (ord i) slots s1 of
             (slots1, s2) \<Rightarrow>
               (case settle_rest slots1 s2 of
                  (batchResults, s3) \<Rightarrow> (fold collect batchResults acc, s3))))"

function batch_loop ::
  "nat \<Rightarrow> string list \<Rightarrow> (nat \<Rightarrow> 'p fetch_env) \<Rightarrow> (nat \<Rightarrow> nat list) \<Rightarrow> 'p batch_result
     \<Rightarrow> 'p server \<Rightarrow> 'p batch_result \<times> 'p server" where
  "batch_loop i addresses env ord acc s =
     (if i < length addresses then
        (case batch_group i addresses env ord acc s of
           (acc1, s1) \<Rightarrow> batch_loop (i + 5) addresses env ord acc1 s1)
      else (acc, s))"
  by pat_completeness auto
termination
  by (relation "measure (\<lambda>(i, addresses, env, ord, acc, s). length addresses - i)") auto

definition batchGeocode ::
  "string list \<Rightarrow> (nat \<Rightarrow> 'p fetch_env) \<Rightarrow> (nat \<Rightarrow> nat list) \<Rightarrow> 'p server
     \<Rightarrow> 'p batch_result \<times> 'p server" where
  "batchGeocode addresses env ord s = batch_loop 0 addresses env ord \<lparr>results = [], errors = []\<rparr> s"

text \<open>
  The route. \<open>None\<close> is a body whose \<^verbatim>\<open>addresses\<close> is missing or not an array; the elements
  of an array are taken to be strings.
\<close>

datatype 'p batch_reply = BatchJson "'p batch_result" | BatchStatus nat string

definition geocode_batch ::
  "string list option \<Rightarrow> (nat \<Rightarrow> 'p fetch_env) \<Rightarrow> (nat \<Rightarrow> nat list) \<Rightarrow> 'p server
     \<Rightarrow> 'p batch_reply \<times> 'p server" where
  "geocode_batch addresses env ord s =
     (case addresses of
        None \<Rightarrow> (BatchStatus 400 ''Array of addresses is required'', s)
      | Some xs \<Rightarrow>
          if length xs = 0 then (BatchStatus 400 ''Array of addresses is required'', s)
          else (case batchGeocode xs env ord s of (r, s1) \<Rightarrow> (BatchJson r, s1)))"

text \<open>Two sequences that together are the list \<open>xs\<close>, each in the order of \<open>xs\<close>.\<close>

fun split_by :: "bool list \<Rightarrow> 'a list \<Rightarrow> 'a list \<times> 'a list" where
  "split_by (b # bs) (x # xs) =
     (case split_by bs xs of (ys, zs) \<Rightarrow> if b then (x # ys, zs) else (ys, x # zs))"
| "split_by bs xs = ([], [])"

section \<open>The map view's midpoint (MapView, lines 331-343)\<close>

text \<open>
  Coordinates are JavaScript numbers; the model computes with real numbers, so it says
  which quantities are added and halved, not how a double rounds the sum.
\<close>

record coord =
  lat :: real
  lng :: real

definition midpoint :: "coord list \<Rightarrow> coord" where
  "midpoint coords =
     (if length coords \<ge> 2 then
        \<lparr>lat = (lat (coords ! 0) + lat (coords ! 1)) / 2,
         lng = (lng (coords ! 0) + lng (coords ! 1)) / 2\<rparr>
      else \<lparr>lat = 38.5816, lng = - 121.4944\<rparr>)"

text \<open>
  The two uses: the \<^verbatim>\<open>center\<close> of the map (line 535), and the arguments of
  \<^verbatim>\<open>fetchNearbyPlaces\<close> (line 436), which the effect calls only when the map is loaded and
  there are at least two coordinates.
\<close>

definition map_center :: "coord list \<Rightarrow> coord" where
  "map_center coords = midpoint coords"

definition ONE_MILE_IN_METERS :: real where
  "ONE_MILE_IN_METERS = 1609.34"

definition nearby_search :: "bool \<Rightarrow> coord list \<Rightarrow> (real \<times> real \<times> real) option" where
  "nearby_search map_loaded coords =
     (if \<not> map_loaded \<or> length coords < 2 then None
      else Some (lat (midpoint coords), lng (midpoint coords), ONE_MILE_IN_METERS))"

subsection \<open>Example states\<close>

text \<open>A server whose session quota is used up and whose geocoding cache holds one entry.\<close>

definition exhausted_server :: "unit server" where
  "exhausted_server =
     \<lparr>cache = \<lparr>geocoding_cache =
                  [(''k'', \<lparr>data = \<lparr>status = ''OK'', body = ()\<rparr>, timestamp = 1000,
                            lastAccessed = 1000\<rparr>)],
                places_cache = [], details_cache = []\<rparr>,
      requestStats = \<lparr>total_stat = 50, geocoding_stat = 50, places_stat = 0, details_stat = 0,
                      limit_stat = 50, lastReset = 0\<rparr>,
      rateLimiter = \<lparr>lastGeocodeRequest = 900, lastPlacesRequest = 0, lastDetailsRequest = 0,
                     minInterval = 100\<rparr>\<rparr>"

subsection \<open>Insertions into an empty cache\<close>

text \<open>
  How many entries the size checks have removed after \<open>n\<close> insertions of new keys into an
  empty map with limit \<open>cap\<close>: the check after an insertion sees the entries that are left
  plus the new one.
\<close>

fun evicted :: "nat \<Rightarrow> nat \<Rightarrow> nat" where
  "evicted cap 0 = 0"
| "evicted cap (Suc n) =
     (if Suc n - evicted cap n > cap
      then evicted cap n + (Suc n - evicted cap n) div 5
      else evicted cap n)"

text \<open>Thirteen entries with keys \<^verbatim>\<open>a\<close> to \<^verbatim>\<open>m\<close>, stored at times 1 to 13.\<close>

definition entry_at :: "int \<Rightarrow> unit cache_item" where
  "entry_at t = \<lparr>data = \<lparr>status = ''OK'', body = ()\<rparr>, timestamp = t, lastAccessed = t\<rparr>"

definition thirteen :: "(string \<times> unit cache_item) list" where
  "thirteen =
     [(''a'', entry_at 1), (''b'', entry_at 2), (''c'', entry_at 3), (''d'', entry_at 4),
      (''e'', entry_at 5), (''f'', entry_at 6), (''g'', entry_at 7), (''h'', entry_at 8),
      (''i'', entry_at 9), (''j'', entry_at 10), (''k'', entry_at 11), (''l'', entry_at 12),
      (''m'', entry_at 13)]"

text \<open>A server that has just started, seen half an hour later, with one entry cached.\<close>

definition warm_server :: "unit server" where
  "warm_server =
     \<lparr>cache = \<lparr>geocoding_cache = [(''sacramento, ca'', entry_at 1000)],
                places_cache = [], details_cache = []\<rparr>,
      requestStats = \<lparr>total_stat = 1, geocoding_stat = 1, places_stat = 0, details_stat = 0,
                      limit_stat = 50, lastReset = 0\<rparr>,
      rateLimiter = \<lparr>lastGeocodeRequest = 900, lastPlacesRequest = 0, lastDetailsRequest = 0,
                     minInterval = 100\<rparr>\<rparr>"

subsection \<open>A run that overlaps two requests at the end of the quota\<close>

text \<open>
  Forty-nine geocoding requests for different one-letter addresses (\<^verbatim>\<open>A\<close>, \<^verbatim>\<open>B\<close>, ...), one
  per second, each answered after 300 ms. Then a geocoding request and a nearby search arrive together; both calls
  are in flight before either is answered.
\<close>

definition answered_ok :: "unit api_outcome" where
  "answered_ok = Responded \<lparr>status = ''OK'', body = ()\<rparr>"

definition one_request :: "nat \<Rightarrow> unit event list" where
  "one_request i =
     [Begin Geocoding [char_of (65 + i)] (1000 * int (Suc i)) (1000 * int (Suc i)),
      Complete Geocoding [char_of (65 + i)] answered_ok
        (1000 * int (Suc i) + 300) (1000 * int (Suc i) + 300)]"

definition overlapping_pair :: "unit event list" where
  "overlapping_pair =
     [Begin Geocoding ''davis, ca'' 60000 60000,
      Begin Places ''38.5,-121.4,1609.34,restaurant'' 60001 60001,
      Complete Geocoding ''davis, ca'' answered_ok 60300 60300,
      Complete Places ''38.5,-121.4,1609.34,restaurant'' answered_ok 60301 60301]"

definition overrun :: "unit event list" where
  "overrun = concat (map one_request [0..<49]) @ overlapping_pair"

subsection \<open>Reading a batch result\<close>

text \<open>The address of an item, and whether the loop of lines 522-528 files it under errors.\<close>

definition address_of :: "'p item_result \<Rightarrow> string" where
  "address_of r = (case r of ItemData a d \<Rightarrow> a | ItemError a msg \<Rightarrow> a)"

definition is_failure :: "'p item_result \<Rightarrow> bool" where
  "is_failure r = (case r of ItemData a d \<Rightarrow> False | ItemError a msg \<Rightarrow> msg \<noteq> [])"

text \<open>
  Seven addresses, the fourth empty; requests 200 ms apart, answered after 50 ms, the
  provider refusing the empty address; calls settle in the order they were made.
\<close>

definition seven :: "string list" where
  "seven = [''Sacramento'', ''Davis'', ''Folsom'', [], ''Roseville'', ''Auburn'', ''Lodi'']"

definition steady_env :: "nat \<Rightarrow> unit fetch_env" where
  "steady_env n =
     \<lparr>t_check = 1000 + 200 * int n, t_second = 1000 + 200 * int n,
      upstream = (if n = 3 then Responded \<lparr>status = ''INVALID_REQUEST'', body = ()\<rparr>
                  else Responded \<lparr>status = ''OK'', body = ()\<rparr>),
      t_store = 1050 + 200 * int n, t_access = 1050 + 200 * int n\<rparr>"

definition in_order :: "nat \<Rightarrow> nat list" where
  "in_order i = []"

section \<open>Rate limiter\<close>

lemma canMakeRequest_category:
  "canMakeRequest (type_name c) now rl =
     (\<not> now - last_request rl c < minInterval rl, last_request_upd c now rl)"
  by (cases c) (simp_all add: canMakeRequest_def interval_check_def)

text \<open>
  C1, as stated: a check made less than \<^verbatim>\<open>minInterval\<close> after the last one returns false
  and leaves the stored timestamp as it was. The source stores \<^verbatim>\<open>now\<close> before it compares:
  50 ms after a request at time 0 the check is refused and the stored time is 50.
\<close>

theorem C1_rejected_check_mutates:
  "fst (canMakeRequest ''geocoding'' 50
         \<lparr>lastGeocodeRequest = 0, lastPlacesRequest = 0, lastDetailsRequest = 0,
          minInterval = 100\<rparr>) = False
   \<and> snd (canMakeRequest ''geocoding'' 50
         \<lparr>lastGeocodeRequest = 0, lastPlacesRequest = 0, lastDetailsRequest = 0,
          minInterval = 100\<rparr>)
     \<noteq> \<lparr>lastGeocodeRequest = 0, lastPlacesRequest = 0, lastDetailsRequest = 0,
          minInterval = 100\<rparr>
   \<and> lastGeocodeRequest (snd (canMakeRequest ''geocoding'' 50
         \<lparr>lastGeocodeRequest = 0, lastPlacesRequest = 0, lastDetailsRequest = 0,
          minInterval = 100\<rparr>)) = 50"
  by (simp add: canMakeRequest_def interval_check_def)

text \<open>
  C1, amended: for each of the three request types, a check made less than \<^verbatim>\<open>minInterval\<close>
  after the stored time of that type returns false and stores \<^verbatim>\<open>now\<close> as the type's
  new last-request time; the other two types' times and \<^verbatim>\<open>minInterval\<close> are unchanged.
\<close>

theorem C1_rejected_check_records_now:
  assumes "now - last_request rl c < minInterval rl"
  shows "fst (canMakeRequest (type_name c) now rl) = False
       \<and> last_request (snd (canMakeRequest (type_name c) now rl)) c = now
       \<and> (\<forall>c'. c' \<noteq> c \<longrightarrow>
            last_request (snd (canMakeRequest (type_name c) now rl)) c' = last_request rl c')
       \<and> minInterval (snd (canMakeRequest (type_name c) now rl)) = minInterval rl"
proof -
  have other: "last_request (last_request_upd c now rl) c' = last_request rl c'"
    if "c' \<noteq> c" for c' :: category
    using that by (cases c; cases c'; simp)
  have same: "last_request (last_request_upd c now rl) c = now"
    by (cases c; simp)
  have mi: "minInterval (last_request_upd c now rl) = minInterval rl"
    by (cases c; simp)
  show ?thesis
    using assms other same mi by (simp add: canMakeRequest_category)
qed

theorem C1_rejected_check_records_now_witness:
  "fst (canMakeRequest (type_name Places) 1050
         \<lparr>lastGeocodeRequest = 7, lastPlacesRequest = 1000, lastDetailsRequest = 9,
          minInterval = 100\<rparr>) = False
   \<and> lastPlacesRequest (snd (canMakeRequest (type_name Places) 1050
         \<lparr>lastGeocodeRequest = 7, lastPlacesRequest = 1000, lastDetailsRequest = 9,
          minInterval = 100\<rparr>)) = 1050"
  using C1_rejected_check_records_now
    [of 1050 "\<lparr>lastGeocodeRequest = 7, lastPlacesRequest = 1000, lastDetailsRequest = 9,
               minInterval = 100\<rparr>" Places]
  by simp

section \<open>Field access\<close>

lemma stat_incr_simps:
  "total_stat (stat_incr c r) = total_stat r"
  "limit_stat (stat_incr c r) = limit_stat r"
  "lastReset (stat_incr c r) = lastReset r"
  "stat_of (stat_incr c r) c = stat_of r c + 1"
  by (cases c; simp)+

lemma stat_of_total_upd: "stat_of (r\<lparr>total_stat := n\<rparr>) c = stat_of r c"
  by (cases c) simp_all

lemma cache_of_upd_same: "cache_of (cache_upd c m cs) c = m"
  by (cases c) simp_all

lemma cache_of_upd_other: "c' \<noteq> c \<Longrightarrow> cache_of (cache_upd c m cs) c' = cache_of cs c'"
  by (cases c; cases c'; simp)

lemma manageCacheSize_fields:
  "requestStats (manageCacheSize c s) = requestStats s"
  "rateLimiter (manageCacheSize c s) = rateLimiter s"
  "cache_of (cache (manageCacheSize c s)) c = purge_oldest (CACHE_LIMITS c) (cache_of (cache s) c)"
  by (simp_all add: manageCacheSize_def cache_of_upd_same)

lemma Map_get_set_same: "Map_get k (Map_set k v m) = Some v"
  by (induction m) auto

lemma Map_get_set_other: "k' \<noteq> k \<Longrightarrow> Map_get k' (Map_set k v m) = Map_get k' m"
  by (induction m) auto

section \<open>The fetch after the external call\<close>

text \<open>
  C2, as stated: when the provider answers with an error status, no call is recorded
  against the quota. The counters are incremented at lines 451-452, before the status is
  looked at: a first geocoding request answered \<^verbatim>\<open>REQUEST_DENIED\<close> fails and leaves both
  counters at 1.
\<close>

theorem C2_error_status_is_counted:
  "fst (handleCachedRequest Geocoding ''k'' 1000 1000
          (Responded \<lparr>status = ''REQUEST_DENIED'', body = ()\<rparr>) 1200 1200 (initial_server 0))
     = Inl (UpstreamError ''Google Maps API error: REQUEST_DENIED'')
   \<and> total_stat (requestStats (initial_server 0 :: unit server)) = 0
   \<and> total_stat (requestStats (snd (handleCachedRequest Geocoding ''k'' 1000 1000
          (Responded \<lparr>status = ''REQUEST_DENIED'', body = ()\<rparr>) 1200 1200 (initial_server 0)))) = 1
   \<and> geocoding_stat (requestStats (snd (handleCachedRequest Geocoding ''k'' 1000 1000
          (Responded \<lparr>status = ''REQUEST_DENIED'', body = ()\<rparr>) 1200 1200 (initial_server 0)))) = 1"
  by (simp add: handleCachedRequest_def handleCachedRequest_sync_def handleCachedRequest_resume_def
       cache_fresh_def initial_server_def canMakeRequest_def interval_check_def)

text \<open>
  C2, amended: for every fetch that reaches the external call, the total and the type's
  counter are each incremented by one whenever the provider answers, whatever the status.
  With status \<^verbatim>\<open>OK\<close> or \<^verbatim>\<open>ZERO_RESULTS\<close> the answer is returned and stored in the type's
  cache; with any other status the fetch fails with an upstream error and the cache is
  unchanged. When the call itself fails, the fetch fails with an upstream error and
  neither a counter nor the cache changes.
\<close>

theorem C2_counters_follow_the_answer:
  "total_stat (requestStats (snd (handleCachedRequest_resume c k (Responded d) tc td s)))
     = total_stat (requestStats s) + 1
   \<and> stat_of (requestStats (snd (handleCachedRequest_resume c k (Responded d) tc td s))) c
     = stat_of (requestStats s) c + 1
   \<and> (if status d = ''OK'' \<or> status d = ''ZERO_RESULTS''
      then fst (handleCachedRequest_resume c k (Responded d) tc td s) = Inr d
         \<and> cache_of (cache (snd (handleCachedRequest_resume c k (Responded d) tc td s))) c =
             cache_insert (CACHE_LIMITS c) (cache_of (cache s) c)
               (k, \<lparr>data = d, timestamp = tc, lastAccessed = td\<rparr>)
      else fst (handleCachedRequest_resume c k (Responded d) tc td s)
             = Inl (UpstreamError (''Google Maps API error: '' @ status d))
         \<and> cache (snd (handleCachedRequest_resume c k (Responded d) tc td s)) = cache s)
   \<and> handleCachedRequest_resume c k (Failed msg) tc td s = (Inl (UpstreamError msg), s)"
  by (simp add: handleCachedRequest_resume_def Let_def stat_incr_simps stat_of_total_upd
        manageCacheSize_fields cache_of_upd_same cache_insert_def)

theorem C2_counters_follow_the_answer_witness:
  "total_stat (requestStats (snd (handleCachedRequest_resume Places ''38.5,-121.4,1609.34,restaurant''
       (Responded \<lparr>status = ''OVER_QUERY_LIMIT'', body = ()\<rparr>) 5000 5000 exhausted_server))) = 51
   \<and> cache (snd (handleCachedRequest_resume Places ''38.5,-121.4,1609.34,restaurant''
       (Responded \<lparr>status = ''OVER_QUERY_LIMIT'', body = ()\<rparr>) 5000 5000 exhausted_server))
       = cache exhausted_server
   \<and> handleCachedRequest_resume Places ''38.5,-121.4,1609.34,restaurant''
       (Failed ''timeout of 10000ms exceeded'') 5000 5000 exhausted_server
       = (Inl (UpstreamError ''timeout of 10000ms exceeded''), exhausted_server)"
  using C2_counters_follow_the_answer
    [where c = Places and k = "''38.5,-121.4,1609.34,restaurant''"
       and d = "\<lparr>status = ''OVER_QUERY_LIMIT'', body = ()\<rparr>"
       and tc = 5000 and td = 5000 and s = exhausted_server
       and msg = "''timeout of 10000ms exceeded''"]
  by (simp add: exhausted_server_def)

section \<open>The fetch before the external call\<close>

lemma sync_hit:
  assumes "Map_get k (cache_of (cache s) c) = Some e" and "ta - timestamp e < CACHE_EXPIRY c"
  shows "handleCachedRequest_sync c k ta tb s =
           (Return (data e),
            s\<lparr>cache := cache_upd c (Map_set k (e\<lparr>lastAccessed := tb\<rparr>) (cache_of (cache s) c))
                          (cache s)\<rparr>)"
  using assms by (simp add: handleCachedRequest_sync_def cache_fresh_def)

lemma sync_miss:
  assumes "cache_fresh c k ta s = None"
  shows "fst (handleCachedRequest_sync c k ta tb s) \<noteq> Return d"
  using assms
  by (simp add: handleCachedRequest_sync_def split: prod.splits)

text \<open>
  C9: a fetch whose key has an entry that has not expired returns the entry's data from
  the synchronous part, so without an external call, whatever the counters are. The
  request statistics and the rate limiter are unchanged, the other types' caches are
  unchanged, and in the type's own cache only the entry's \<^verbatim>\<open>lastAccessed\<close> is written.
  Nothing is assumed about \<^verbatim>\<open>total\<close> and \<^verbatim>\<open>limit\<close>.
\<close>

theorem C9_hit_costs_nothing:
  assumes "Map_get k (cache_of (cache s) c) = Some e" and "ta - timestamp e < CACHE_EXPIRY c"
  shows "fst (handleCachedRequest_sync c k ta tb s) = Return (data e)
       \<and> handleCachedRequest c k ta tb outcome tc td s
           = (Inr (data e), snd (handleCachedRequest_sync c k ta tb s))
       \<and> requestStats (snd (handleCachedRequest_sync c k ta tb s)) = requestStats s
       \<and> rateLimiter (snd (handleCachedRequest_sync c k ta tb s)) = rateLimiter s
       \<and> (\<forall>c'. c' \<noteq> c \<longrightarrow>
            cache_of (cache (snd (handleCachedRequest_sync c k ta tb s))) c'
              = cache_of (cache s) c')
       \<and> cache_of (cache (snd (handleCachedRequest_sync c k ta tb s))) c
           = Map_set k (e\<lparr>lastAccessed := tb\<rparr>) (cache_of (cache s) c)
       \<and> (\<forall>k'. k' \<noteq> k \<longrightarrow>
            Map_get k' (cache_of (cache (snd (handleCachedRequest_sync c k ta tb s))) c)
              = Map_get k' (cache_of (cache s) c))"
  using sync_hit[OF assms, of tb]
  by (simp add: handleCachedRequest_def cache_of_upd_same cache_of_upd_other Map_get_set_other)

theorem C9_hit_costs_nothing_witness:
  "limit_stat (requestStats exhausted_server) \<le> total_stat (requestStats exhausted_server)
   \<and> fst (handleCachedRequest_sync Geocoding ''k'' 2000 2001 exhausted_server)
       = Return \<lparr>status = ''OK'', body = ()\<rparr>
   \<and> requestStats (snd (handleCachedRequest_sync Geocoding ''k'' 2000 2001 exhausted_server))
       = requestStats exhausted_server
   \<and> rateLimiter (snd (handleCachedRequest_sync Geocoding ''k'' 2000 2001 exhausted_server))
       = rateLimiter exhausted_server"
  using C9_hit_costs_nothing
    [where k = "''k''" and s = exhausted_server and c = Geocoding and ta = 2000 and tb = 2001
       and e = "\<lparr>data = \<lparr>status = ''OK'', body = ()\<rparr>, timestamp = 1000, lastAccessed = 1000\<rparr>"]
  by (simp add: exhausted_server_def)

text \<open>
  C6: the lookup at the head of the fetch returns stored data exactly when the key has an
  entry and \<open>now - timestamp < CACHE_EXPIRY\<close> for the type. An entry stored at \<open>t0\<close> is a
  hit one millisecond before \<open>t0 + CACHE_EXPIRY\<close> and is not one millisecond after it. A
  hit writes \<^verbatim>\<open>lastAccessed\<close> and leaves \<^verbatim>\<open>timestamp\<close> as it was, so the times at which the
  entry counts as fresh are the same after the hit as before it.
\<close>

theorem C6_expiry:
  "((\<exists>d. fst (handleCachedRequest_sync c k ta tb s) = Return d) \<longleftrightarrow>
      (\<exists>e. Map_get k (cache_of (cache s) c) = Some e \<and> ta - timestamp e < CACHE_EXPIRY c))
   \<and> (\<forall>e. Map_get k (cache_of (cache s) c) = Some e \<longrightarrow>
        (ta - timestamp e < CACHE_EXPIRY c \<longrightarrow>
           fst (handleCachedRequest_sync c k ta tb s) = Return (data e)
         \<and> Map_get k (cache_of (cache (snd (handleCachedRequest_sync c k ta tb s))) c)
             = Some (e\<lparr>lastAccessed := tb\<rparr>)
         \<and> (\<forall>t. cache_fresh c k t (snd (handleCachedRequest_sync c k ta tb s)) = None
                 \<longleftrightarrow> cache_fresh c k t s = None))
      \<and> (ta = timestamp e + CACHE_EXPIRY c - 1 \<longrightarrow>
           fst (handleCachedRequest_sync c k ta tb s) = Return (data e))
      \<and> (ta = timestamp e + CACHE_EXPIRY c + 1 \<longrightarrow>
           (\<forall>d. fst (handleCachedRequest_sync c k ta tb s) \<noteq> Return d)))"
proof -
  have miss: "\<forall>d. fst (handleCachedRequest_sync c k ta tb s) \<noteq> Return d"
    if "cache_fresh c k ta s = None"
    using sync_miss[OF that] by blast
  have hit: "fst (handleCachedRequest_sync c k ta tb s) = Return (data e)
           \<and> Map_get k (cache_of (cache (snd (handleCachedRequest_sync c k ta tb s))) c)
               = Some (e\<lparr>lastAccessed := tb\<rparr>)
           \<and> (\<forall>t. cache_fresh c k t (snd (handleCachedRequest_sync c k ta tb s)) = None
                   \<longleftrightarrow> cache_fresh c k t s = None)"
    if "Map_get k (cache_of (cache s) c) = Some e" "ta - timestamp e < CACHE_EXPIRY c" for e
    using sync_hit[OF that, of tb] that(1)
    by (simp add: cache_of_upd_same Map_get_set_same cache_fresh_def)
  show ?thesis
  proof (cases "Map_get k (cache_of (cache s) c)")
    case None
    then have "cache_fresh c k ta s = None" by (simp add: cache_fresh_def)
    with miss None show ?thesis by simp
  next
    case (Some e)
    show ?thesis
    proof (cases "ta - timestamp e < CACHE_EXPIRY c")
      case True
      with hit[OF Some True] Some show ?thesis by auto
    next
      case False
      then have "cache_fresh c k ta s = None" using Some by (simp add: cache_fresh_def)
      with miss Some False show ?thesis by auto
    qed
  qed
qed

theorem C6_expiry_witness:
  "fst (handleCachedRequest_sync Geocoding ''k'' (1000 + 30 * 60 * 1000 - 1) 5 exhausted_server)
     = Return \<lparr>status = ''OK'', body = ()\<rparr>
   \<and> Map_get ''k'' (cache_of (cache (snd (handleCachedRequest_sync Geocoding ''k''
         (1000 + 30 * 60 * 1000 - 1) 5 exhausted_server))) Geocoding)
     = Some \<lparr>data = \<lparr>status = ''OK'', body = ()\<rparr>, timestamp = 1000, lastAccessed = 5\<rparr>
   \<and> fst (handleCachedRequest_sync Geocoding ''k'' (1000 + 30 * 60 * 1000 + 1) 5 exhausted_server)
     = Throw QuotaExceeded"
  using C6_expiry [where c = Geocoding and k = "''k''" and ta = "1000 + 30 * 60 * 1000 - 1" and tb = 5 and s = exhausted_server]
    C6_expiry [where c = Geocoding and k = "''k''" and ta = "1000 + 30 * 60 * 1000 + 1" and tb = 5 and s = exhausted_server]
  apply (simp add: exhausted_server_def)
  apply (simp add: handleCachedRequest_sync_def cache_fresh_def)
  done

section \<open>Cache maps and the size check\<close>

lemma filter_other_keys: "k \<notin> fst ` set m \<Longrightarrow> filter (\<lambda>e. fst e \<noteq> k) m = m"
  by (induction m) auto

lemma Map_delete_filter: "distinct (map fst m) \<Longrightarrow> Map_delete k m = filter (\<lambda>e. fst e \<noteq> k) m"
  by (induction m) (auto simp: filter_other_keys)

lemma fold_delete_filter:
  "distinct (map fst m) \<Longrightarrow>
   fold (\<lambda>e m. Map_delete (fst e) m) es m = filter (\<lambda>e. fst e \<notin> fst ` set es) m"
proof (induction es arbitrary: m)
  case Nil
  then show ?case by simp
next
  case (Cons x es)
  have d: "distinct (map fst (filter (\<lambda>e. fst e \<noteq> fst x) m))"
    using Cons.prems by (simp add: distinct_map_filter)
  show ?case
    using Cons.IH[OF d] Cons.prems
    by (simp add: Map_delete_filter conj_commute cong: filter_cong)
qed

lemma purge_oldest_filter:
  assumes "distinct (map fst m)"
  shows "purge_oldest cap m =
           (if length m > cap
            then filter (\<lambda>e. fst e \<notin> fst ` set (take (length m div 5)
                                                   (sort_key (\<lambda>e. timestamp (snd e)) m))) m
            else m)"
  using assms by (simp add: purge_oldest_def Let_def fold_delete_filter)

lemma filter_keys_take_drop:
  assumes "distinct (map fst m)"
  shows "filter (\<lambda>e. fst e \<notin> fst ` set (take n m)) m = drop n m"
proof -
  have m: "m = take n m @ drop n m" by simp
  have dis: "fst ` set (take n m) \<inter> fst ` set (drop n m) = {}"
    using assms by (metis append_take_drop_id distinct_append list.set_map map_append)
  have 1: "filter (\<lambda>e. fst e \<notin> fst ` set (take n m)) (take n m) = []"
    by (simp add: filter_empty_conv)
  have 2: "filter (\<lambda>e. fst e \<notin> fst ` set (take n m)) (drop n m) = drop n m"
    using dis by (auto simp: filter_id_conv)
  have "filter (\<lambda>e. fst e \<notin> fst ` set (take n m)) (take n m @ drop n m) = drop n m"
    unfolding filter_append 1 2 by simp
  then show ?thesis by simp
qed

lemma purge_oldest_sorted:
  assumes "distinct (map fst m)" and "sorted (map (\<lambda>e. timestamp (snd e)) m)"
  shows "purge_oldest cap m = (if length m > cap then drop (length m div 5) m else m)"
  using assms
  by (simp add: purge_oldest_filter sort_key_id_if_sorted filter_keys_take_drop)

lemma Map_set_fresh: "k \<notin> fst ` set m \<Longrightarrow> Map_set k v m = m @ [(k, v)]"
  by (induction m) auto

lemma evicted_le: "evicted cap n \<le> n"
  by (induction n) (auto simp: Let_def)

lemma inserts_drop:
  assumes "distinct (map fst kvs)" and "sorted (map (\<lambda>e. timestamp (snd e)) kvs)"
  shows "foldl (cache_insert cap) [] kvs = drop (evicted cap (length kvs)) kvs"
  using assms
proof (induction kvs rule: rev_induct)
  case Nil
  then show ?case by simp
next
  case (snoc x xs)
  let ?d = "evicted cap (length xs)"
  have dx: "distinct (map fst xs)" and sx: "sorted (map (\<lambda>e. timestamp (snd e)) xs)"
    using snoc.prems by (simp_all add: sorted_append)
  have IH: "foldl (cache_insert cap) [] xs = drop ?d xs"
    using snoc.IH[OF dx sx] .
  have le: "?d \<le> length xs" by (rule evicted_le)
  have fresh: "fst x \<notin> fst ` set (drop ?d xs)"
    using snoc.prems(1) by (auto dest: in_set_dropD)
  have app: "drop ?d xs @ [x] = drop ?d (xs @ [x])"
    using le by simp
  have d2: "distinct (map fst (drop ?d (xs @ [x])))"
    using snoc.prems(1) by (metis distinct_drop drop_map)
  have s2: "sorted (map (\<lambda>e. timestamp (snd e)) (drop ?d (xs @ [x])))"
    using snoc.prems(2) by (metis sorted_wrt_drop drop_map)
  have "foldl (cache_insert cap) [] (xs @ [x]) = purge_oldest cap (drop ?d (xs @ [x]))"
    using IH fresh app by (cases x) (simp add: cache_insert_def Map_set_fresh)
  also have "\<dots> = (if length (drop ?d (xs @ [x])) > cap
                     then drop (length (drop ?d (xs @ [x])) div 5) (drop ?d (xs @ [x]))
                     else drop ?d (xs @ [x]))"
    by (rule purge_oldest_sorted[OF d2 s2])
  also have "length (drop ?d (xs @ [x])) = Suc (length xs) - ?d"
    by simp
  also have "(if Suc (length xs) - ?d > cap
              then drop ((Suc (length xs) - ?d) div 5) (drop ?d (xs @ [x]))
              else drop ?d (xs @ [x]))
           = drop (evicted cap (length (xs @ [x]))) (xs @ [x])"
    by (simp del: drop_append add: add.commute)
  finally show ?case .
qed

lemma evicted_below: "n \<le> cap \<Longrightarrow> evicted cap n = 0"
  by (induction n) auto

lemma evicted_10_13: "evicted 10 13 = 4"
proof -
  have e10: "evicted 10 10 = 0" by (simp add: evicted_below)
  have "evicted 10 11 = evicted 10 (Suc 10)" by simp
  also have "\<dots> = 2" unfolding evicted.simps e10 by simp
  finally have e11: "evicted 10 11 = 2" .
  have "evicted 10 12 = evicted 10 (Suc 11)" by simp
  also have "\<dots> = 2" unfolding evicted.simps e11 by simp
  finally have e12: "evicted 10 12 = 2" .
  have "evicted 10 13 = evicted 10 (Suc 12)" by simp
  also have "\<dots> = 4" unfolding evicted.simps e12 by simp
  finally show ?thesis .
qed

lemma Map_set_keys:
  "map fst (Map_set k v m) = (if k \<in> set (map fst m) then map fst m else map fst m @ [k])"
  by (induction k v m rule: Map_set.induct) auto

lemma Map_set_distinct: "distinct (map fst m) \<Longrightarrow> distinct (map fst (Map_set k v m))"
  by (simp add: Map_set_keys)

lemma purge_oldest_subset: "distinct (map fst m) \<Longrightarrow> set (purge_oldest cap m) \<subseteq> set m"
  by (auto simp: purge_oldest_filter)

lemma purge_oldest_distinct:
  "distinct (map fst m) \<Longrightarrow> distinct (map fst (purge_oldest cap m))"
  by (simp add: purge_oldest_filter distinct_map_filter)

lemma key_in_sublist:
  assumes "distinct (map fst m)" and "set T \<subseteq> set m" and "e \<in> set m"
  shows "fst e \<in> fst ` set T \<longleftrightarrow> e \<in> set T"
proof
  assume "fst e \<in> fst ` set T"
  then obtain e' where e': "e' \<in> set T" "fst e' = fst e" by auto
  with assms have "e' \<in> set m" by auto
  with assms(1,3) e'(2) have "e' = e"
    by (meson distinct_map inj_onD)
  with e'(1) show "e \<in> set T" by simp
qed auto

lemma purge_oldest_kept:
  assumes "distinct (map fst m)" and "length m > cap"
  shows "set (purge_oldest cap m)
           = set m - set (take (length m div 5) (sort_key (\<lambda>e. timestamp (snd e)) m))"
proof -
  let ?T = "take (length m div 5) (sort_key (\<lambda>e. timestamp (snd e)) m)"
  have sub: "set ?T \<subseteq> set m"
    using set_take_subset[of "length m div 5" "sort_key (\<lambda>e. timestamp (snd e)) m"] by simp
  show ?thesis
    using assms key_in_sublist[OF assms(1) sub]
    by (auto simp: purge_oldest_filter)
qed

lemma purge_oldest_length:
  assumes "distinct (map fst m)" and "length m > cap"
  shows "length (purge_oldest cap m) = length m - length m div 5"
proof -
  let ?S = "sort_key (\<lambda>e. timestamp (snd e)) m"
  let ?T = "take (length m div 5) ?S"
  have dm: "distinct m" using assms(1) by (rule distinct_map[THEN iffD1, THEN conjunct1])
  have dT: "distinct ?T" using dm by simp
  have sub: "set ?T \<subseteq> set m"
    using set_take_subset[of "length m div 5" ?S] by simp
  have lT: "length ?T = length m div 5" by simp
  have dp: "distinct (purge_oldest cap m)"
    using purge_oldest_distinct[OF assms(1)] by (rule distinct_map[THEN iffD1, THEN conjunct1])
  have "length (purge_oldest cap m) = card (set (purge_oldest cap m))"
    using dp by (simp add: distinct_card)
  also have "\<dots> = card (set m - set ?T)"
    by (simp add: purge_oldest_kept[OF assms])
  also have "\<dots> = card (set m) - card (set ?T)"
    using sub by (simp add: card_Diff_subset)
  also have "\<dots> = length m - length m div 5"
    using dm dT lT by (simp add: distinct_card)
  finally show ?thesis .
qed

lemma purge_oldest_oldest_first:
  assumes "distinct (map fst m)" and "length m > cap"
    and "r \<in> set m - set (purge_oldest cap m)" and "x \<in> set (purge_oldest cap m)"
  shows "timestamp (snd r) \<le> timestamp (snd x)"
proof -
  let ?f = "\<lambda>e. timestamp (snd e)"
  let ?S = "sort_key ?f m"
  let ?n = "length m div 5"
  have kept: "set (purge_oldest cap m) = set m - set (take ?n ?S)"
    by (rule purge_oldest_kept[OF assms(1,2)])
  have r: "r \<in> set (take ?n ?S)" using assms(3) kept by auto
  have "x \<in> set ?S" "x \<notin> set (take ?n ?S)" using assms(4) kept by auto
  then have x: "x \<in> set (drop ?n ?S)"
    by (metis Un_iff append_take_drop_id set_append)
  have "sorted (map ?f (take ?n ?S @ drop ?n ?S))" by simp
  then have "\<forall>a\<in>set (take ?n ?S). \<forall>b\<in>set (drop ?n ?S). ?f a \<le> ?f b"
    unfolding map_append sorted_append by auto
  with r x show ?thesis by blast
qed

lemma insort_key_last:
  "f y \<le> f x \<Longrightarrow> insort_key f y (zs @ [x]) = insort_key f y zs @ [x]"
  by (induction zs) auto

lemma sort_key_last:
  "\<forall>y\<in>set ys. f y \<le> f x \<Longrightarrow> sort_key f (ys @ [x]) = sort_key f ys @ [x]"
  by (induction ys) (auto simp: insort_key_last)

lemma Map_get_member: "distinct (map fst m) \<Longrightarrow> (k, v) \<in> set m \<Longrightarrow> Map_get k m = Some v"
  by (induction m) (auto simp: rev_image_eqI)

lemma Map_set_length_present:
  assumes "k \<in> fst ` set m"
  shows "length (Map_set k v m) = length m"
proof -
  have "length (map fst (Map_set k v m)) = length (map fst m)"
    using assms by (simp only: Map_set_keys) simp
  then show ?thesis by simp
qed

lemma cache_insert_keeps_new:
  assumes d: "distinct (map fst m)" and le: "length m \<le> cap"
    and ts: "\<forall>e\<in>set m. timestamp (snd e) \<le> timestamp v"
  shows "Map_get k (cache_insert cap m (k, v)) = Some v"
proof (cases "k \<in> fst ` set m")
  case True
  then have "length (Map_set k v m) \<le> cap" using le by (simp add: Map_set_length_present)
  then show ?thesis by (simp add: cache_insert_def purge_oldest_def Map_get_set_same)
next
  case False
  let ?f = "\<lambda>e. timestamp (snd e)"
  let ?m' = "m @ [(k, v)]"
  let ?n = "length ?m' div 5"
  have set: "Map_set k v m = ?m'" using False by (rule Map_set_fresh)
  have d': "distinct (map fst ?m')" using d False by simp
  have sorted: "sort_key ?f ?m' = sort_key ?f m @ [(k, v)]"
    using ts by (intro sort_key_last) simp
  have "?n \<le> length m" by simp
  then have "take ?n (sort_key ?f ?m') = take ?n (sort_key ?f m)"
    unfolding sorted by simp
  then have "fst ` set (take ?n (sort_key ?f ?m')) \<subseteq> fst ` set m"
    using set_take_subset[of ?n "sort_key ?f m"] by auto
  then have notin: "k \<notin> fst ` set (take ?n (sort_key ?f ?m'))" using False by blast
  have mem: "(k, v) \<in> set (purge_oldest cap ?m')"
    using notin by (simp add: purge_oldest_filter[OF d'])
  show ?thesis
    unfolding cache_insert_def fst_conv snd_conv set
    using Map_get_member[OF purge_oldest_distinct[OF d'] mem] .
qed

text \<open>
  C3, as stated: with limit 10, thirteen insertions of new keys leave exactly 10 entries,
  the 2 oldest absent. The check after the 11th insertion removes \<open>11 div 5 = 2\<close> entries
  and leaves 9; the 12th brings the size to 10, which is not over the limit; the 13th
  brings it to 11 and the check removes 2 again. Nine entries are left, and the four
  oldest are gone.
\<close>

theorem C3_thirteen_inserts_leave_nine_not_ten:
  "length (foldl (cache_insert 10) [] thirteen) = 9
   \<and> map fst (foldl (cache_insert 10) [] thirteen)
      = [''e'', ''f'', ''g'', ''h'', ''i'', ''j'', ''k'', ''l'', ''m'']"
  by code_simp

text \<open>
  C3, amended: with limit 10, inserting 13 distinct keys at non-decreasing times into an
  empty cache leaves exactly 9 entries, the 4 oldest absent and the newest 9 present. In
  general, whenever an insertion brings the size over the limit, the size check removes
  the floor of 20% of the entries, and every entry it removes was stored no later than
  every entry it keeps.
\<close>

theorem C3_eviction:
  "(distinct (map fst kvs) \<and> sorted (map (\<lambda>e. timestamp (snd e)) kvs) \<and> length kvs = 13
      \<longrightarrow> foldl (cache_insert 10) [] kvs = drop 4 kvs
        \<and> length (foldl (cache_insert 10) [] kvs) = 9)
   \<and> (distinct (map fst m) \<and> length (Map_set k v m) > cap
      \<longrightarrow> length (cache_insert cap m (k, v))
            = length (Map_set k v m) - length (Map_set k v m) div 5
        \<and> set (cache_insert cap m (k, v)) \<subseteq> set (Map_set k v m)
        \<and> (\<forall>r\<in>set (Map_set k v m) - set (cache_insert cap m (k, v)).
             \<forall>x\<in>set (cache_insert cap m (k, v)). timestamp (snd r) \<le> timestamp (snd x)))"
proof (intro conjI impI)
  assume a: "distinct (map fst kvs) \<and> sorted (map (\<lambda>e. timestamp (snd e)) kvs) \<and> length kvs = 13"
  then show eq: "foldl (cache_insert 10) [] kvs = drop 4 kvs"
    using inserts_drop[of kvs 10] by (simp add: evicted_10_13)
  show "length (foldl (cache_insert 10) [] kvs) = 9"
    unfolding eq using a by simp
next
  assume a: "distinct (map fst m) \<and> length (Map_set k v m) > cap"
  then have d: "distinct (map fst (Map_set k v m))" by (simp add: Map_set_distinct)
  from a have l: "length (Map_set k v m) > cap" by simp
  show "length (cache_insert cap m (k, v))
          = length (Map_set k v m) - length (Map_set k v m) div 5"
    using purge_oldest_length[OF d l] by (simp add: cache_insert_def)
  show "set (cache_insert cap m (k, v)) \<subseteq> set (Map_set k v m)"
    using purge_oldest_subset[OF d] by (simp add: cache_insert_def)
  show "\<forall>r\<in>set (Map_set k v m) - set (cache_insert cap m (k, v)).
          \<forall>x\<in>set (cache_insert cap m (k, v)). timestamp (snd r) \<le> timestamp (snd x)"
    using purge_oldest_oldest_first[OF d l] by (simp add: cache_insert_def)
qed

theorem C3_eviction_witness:
  "distinct (map fst thirteen) \<and> sorted (map (\<lambda>e. timestamp (snd e)) thirteen)
   \<and> length thirteen = 13
   \<and> foldl (cache_insert 10) [] thirteen = drop 4 thirteen
   \<and> length (Map_set ''z'' (entry_at 20) (take 10 thirteen)) > 10
   \<and> length (cache_insert 10 (take 10 thirteen) (''z'', entry_at 20)) = 9"
proof -
  have h: "distinct (map fst thirteen) \<and> sorted (map (\<lambda>e. timestamp (snd e)) thirteen)
           \<and> length thirteen = 13"
    by (simp add: thirteen_def entry_at_def)
  have g: "distinct (map fst (take 10 thirteen))
           \<and> length (Map_set ''z'' (entry_at 20) (take 10 thirteen)) > 10"
    by (simp add: thirteen_def)
  have l: "length (Map_set ''z'' (entry_at 20) (take 10 thirteen)) = 11"
    by (simp add: thirteen_def)
  show ?thesis
    using h g l
      C3_eviction[where kvs = thirteen and m = "take 10 thirteen" and k = "''z''"
        and v = "entry_at 20" and cap = 10]
    by simp
qed

section \<open>Two fetches of one key\<close>

lemma sync_await:
  assumes "fst (handleCachedRequest_sync c k ta tb s) = Await"
  shows "cache (snd (handleCachedRequest_sync c k ta tb s)) = cache s"
    and "requestStats (snd (handleCachedRequest_sync c k ta tb s)) = requestStats s"
    and "total_stat (requestStats s) < limit_stat (requestStats s)"
    and "cache_fresh c k ta s = None"
  using assms
  by (auto simp: handleCachedRequest_sync_def split: option.splits if_splits prod.splits)

lemma resume_stores:
  assumes "status d = ''OK'' \<or> status d = ''ZERO_RESULTS''"
  shows "fst (handleCachedRequest_resume c k (Responded d) tc td s) = Inr d"
    and "cache_of (cache (snd (handleCachedRequest_resume c k (Responded d) tc td s))) c =
           cache_insert (CACHE_LIMITS c) (cache_of (cache s) c)
             (k, \<lparr>data = d, timestamp = tc, lastAccessed = td\<rparr>)"
  using assms
  by (auto simp: handleCachedRequest_resume_def Let_def manageCacheSize_fields cache_of_upd_same
        cache_insert_def)

text \<open>
  C5: take a state whose cache for the type is a proper map within its limit, holding
  nothing stored later than the moment this fetch stores (the clock does not run
  backwards). If a fetch of a key passes the cache, the limit test and the rate limiter, so
  that the external call is made, and the provider answers \<^verbatim>\<open>OK\<close> or \<^verbatim>\<open>ZERO_RESULTS\<close>, the
  fetch returns the answer; and a second fetch of the key beginning less than
  \<open>CACHE_EXPIRY\<close> after the answer was stored returns the same answer from its synchronous
  part, that is, without a second external call.
\<close>

theorem C5_cache_idempotence:
  assumes "distinct (map fst (cache_of (cache s) c))"
    and "length (cache_of (cache s) c) \<le> CACHE_LIMITS c"
    and "\<forall>e\<in>set (cache_of (cache s) c). timestamp (snd e) \<le> tc"
    and "fst (handleCachedRequest_sync c k ta tb s) = Await"
    and "status d = ''OK'' \<or> status d = ''ZERO_RESULTS''"
    and "ta' - tc < CACHE_EXPIRY c"
  shows "fst (handleCachedRequest c k ta tb (Responded d) tc td s) = Inr d
       \<and> fst (handleCachedRequest_sync c k ta' tb'
                (snd (handleCachedRequest c k ta tb (Responded d) tc td s))) = Return d
       \<and> fst (handleCachedRequest c k ta' tb' outcome' tc' td'
                (snd (handleCachedRequest c k ta tb (Responded d) tc td s))) = Inr d"
proof -
  let ?s1 = "snd (handleCachedRequest_sync c k ta tb s)"
  let ?r = "handleCachedRequest_resume c k (Responded d) tc td ?s1"
  let ?item = "\<lparr>data = d, timestamp = tc, lastAccessed = td\<rparr>"
  have first: "handleCachedRequest c k ta tb (Responded d) tc td s = ?r"
    using assms(4) by (cases "handleCachedRequest_sync c k ta tb s") (simp add: handleCachedRequest_def)
  have c1: "cache ?s1 = cache s" using sync_await(1)[OF assms(4)] .
  have stored: "cache_of (cache (snd ?r)) c =
                  cache_insert (CACHE_LIMITS c) (cache_of (cache s) c) (k, ?item)"
    using resume_stores(2)[OF assms(5), of c k tc td ?s1] c1 by simp
  have "Map_get k (cache_insert (CACHE_LIMITS c) (cache_of (cache s) c) (k, ?item)) = Some ?item"
    using assms(1,2,3) by (intro cache_insert_keeps_new) simp_all
  then have got: "Map_get k (cache_of (cache (snd ?r)) c) = Some ?item"
    using stored by simp
  have fresh: "ta' - timestamp ?item < CACHE_EXPIRY c" using assms(6) by simp
  have hit: "handleCachedRequest_sync c k ta' tb' (snd ?r) =
               (Return (data ?item),
                (snd ?r)\<lparr>cache := cache_upd c
                    (Map_set k (?item\<lparr>lastAccessed := tb'\<rparr>) (cache_of (cache (snd ?r)) c))
                    (cache (snd ?r))\<rparr>)"
    by (rule sync_hit[OF got fresh])
  show ?thesis
    unfolding first
    using resume_stores(1)[OF assms(5), of c k tc td ?s1] hit
    by (simp add: handleCachedRequest_def)
qed

theorem C5_cache_idempotence_witness:
  "fst (handleCachedRequest_sync Geocoding ''davis, ca'' 5000 5000 warm_server) = Await
   \<and> fst (handleCachedRequest Geocoding ''davis, ca'' 5000 5000
            (Responded \<lparr>status = ''OK'', body = ()\<rparr>) 5300 5300 warm_server)
       = Inr \<lparr>status = ''OK'', body = ()\<rparr>
   \<and> fst (handleCachedRequest_sync Geocoding ''davis, ca'' 6000 6000
            (snd (handleCachedRequest Geocoding ''davis, ca'' 5000 5000
               (Responded \<lparr>status = ''OK'', body = ()\<rparr>) 5300 5300 warm_server)))
       = Return \<lparr>status = ''OK'', body = ()\<rparr>"
proof -
  have a: "fst (handleCachedRequest_sync Geocoding ''davis, ca'' 5000 5000 warm_server) = Await"
    by (simp add: handleCachedRequest_sync_def cache_fresh_def warm_server_def
          canMakeRequest_def interval_check_def)
  have w: "distinct (map fst (cache_of (cache warm_server) Geocoding))"
    "length (cache_of (cache warm_server) Geocoding) \<le> CACHE_LIMITS Geocoding"
    "\<forall>e\<in>set (cache_of (cache warm_server) Geocoding). timestamp (snd e) \<le> 5300"
    by (simp_all add: warm_server_def entry_at_def)
  show ?thesis
    using a C5_cache_idempotence[OF w a, where d = "\<lparr>status = ''OK'', body = ()\<rparr>"
        and ta' = 6000 and tb' = 6000 and td = 5300]
    by simp
qed

section \<open>Caches in reachable states\<close>

text \<open>
  The first two assumptions of the theorem on two fetches hold in every state a run can
  reach, whatever the clock and the provider do: each cache is a map and is within its
  limit. The third is the clock not running backwards between one store and the next.
\<close>

lemma caches_ok_all:
  "caches_ok s \<longleftrightarrow>
     (\<forall>c. distinct (map fst (cache_of (cache s) c))
          \<and> length (cache_of (cache s) c) \<le> CACHE_LIMITS c)"
proof
  assume a: "caches_ok s"
  show "\<forall>c. distinct (map fst (cache_of (cache s) c))
          \<and> length (cache_of (cache s) c) \<le> CACHE_LIMITS c"
  proof
    fix c
    show "distinct (map fst (cache_of (cache s) c))
          \<and> length (cache_of (cache s) c) \<le> CACHE_LIMITS c"
      using a by (cases c) (simp_all add: caches_ok_def)
  qed
qed (simp add: caches_ok_def)

lemma manageCacheSize_other:
  "c' \<noteq> c \<Longrightarrow> cache_of (cache (manageCacheSize c s)) c' = cache_of (cache s) c'"
  by (simp add: manageCacheSize_def cache_of_upd_other)

lemma Map_set_length: "length (Map_set k v m) \<le> Suc (length m)"
proof -
  have "length (map fst (Map_set k v m)) \<le> Suc (length (map fst m))"
    by (simp only: Map_set_keys) simp
  then show ?thesis by simp
qed

lemma cache_insert_bounded:
  assumes "distinct (map fst m)" and "length m \<le> cap" and "4 \<le> cap"
  shows "distinct (map fst (cache_insert cap m kv))" and "length (cache_insert cap m kv) \<le> cap"
proof -
  let ?m' = "Map_set (fst kv) (snd kv) m"
  have d: "distinct (map fst ?m')" using assms(1) by (rule Map_set_distinct)
  show "distinct (map fst (cache_insert cap m kv))"
    using purge_oldest_distinct[OF d] by (simp add: cache_insert_def)
  have n: "length ?m' \<le> Suc cap"
    using Map_set_length[of "fst kv" "snd kv" m] assms(2) by simp
  show "length (cache_insert cap m kv) \<le> cap"
  proof (cases "length ?m' > cap")
    case True
    then have "length ?m' = Suc cap" using n by simp
    moreover have "Suc cap div 5 \<ge> 1" using assms(3) by simp
    ultimately show ?thesis
      using purge_oldest_length[OF d True] by (simp add: cache_insert_def)
  next
    case False
    then show ?thesis by (simp add: cache_insert_def purge_oldest_def)
  qed
qed

lemma Map_get_key: "Map_get k m = Some e \<Longrightarrow> k \<in> set (map fst m)"
  by (induction k m rule: Map_get.induct) (auto split: if_splits)

lemma Map_set_keys_present: "Map_get k m = Some e \<Longrightarrow> map fst (Map_set k v m) = map fst m"
  using Map_get_key[of k m e] by (simp only: Map_set_keys) simp

lemma CACHE_LIMITS_ge: "4 \<le> CACHE_LIMITS c"
  by (cases c) simp_all

lemma sync_caches_ok:
  assumes "caches_ok s"
  shows "caches_ok (snd (handleCachedRequest_sync c k ta tb s))"
proof (cases "cache_fresh c k ta s")
  case None
  then have "cache (snd (handleCachedRequest_sync c k ta tb s)) = cache s"
    by (simp add: handleCachedRequest_sync_def split: prod.splits)
  with assms show ?thesis by (simp add: caches_ok_all)
next
  case (Some e)
  then have g: "Map_get k (cache_of (cache s) c) = Some e" "ta - timestamp e < CACHE_EXPIRY c"
    by (auto simp: cache_fresh_def split: option.splits if_splits)
  let ?m = "cache_of (cache s) c"
  let ?m' = "Map_set k (e\<lparr>lastAccessed := tb\<rparr>) ?m"
  have keys: "map fst ?m' = map fst ?m"
    using g(1) by (rule Map_set_keys_present)
  then have len: "length ?m' = length ?m" by (metis length_map)
  have "cache_of (cache (snd (handleCachedRequest_sync c k ta tb s))) c' =
          (if c' = c then ?m' else cache_of (cache s) c')" for c'
    using sync_hit[OF g, of tb] by (simp add: cache_of_upd_same cache_of_upd_other)
  with assms keys len show ?thesis by (simp add: caches_ok_all)
qed

lemma resume_caches_ok:
  assumes "caches_ok s"
  shows "caches_ok (snd (handleCachedRequest_resume c k outcome tc td s))"
proof (cases outcome)
  case (Failed msg)
  with assms show ?thesis by (simp add: handleCachedRequest_resume_def)
next
  case (Responded d)
  show ?thesis
  proof (cases "status d = ''OK'' \<or> status d = ''ZERO_RESULTS''")
    case False
    then have "cache (snd (handleCachedRequest_resume c k outcome tc td s)) = cache s"
      using Responded by (simp add: handleCachedRequest_resume_def Let_def)
    with assms show ?thesis by (simp add: caches_ok_all)
  next
    case True
    let ?s' = "snd (handleCachedRequest_resume c k (Responded d) tc td s)"
    let ?item = "\<lparr>data = d, timestamp = tc, lastAccessed = td\<rparr>"
    have same: "cache_of (cache ?s') c =
                  cache_insert (CACHE_LIMITS c) (cache_of (cache s) c) (k, ?item)"
      by (rule resume_stores(2)[OF True])
    have other: "cache_of (cache ?s') c' = cache_of (cache s) c'" if "c' \<noteq> c" for c'
      using True that
      by (auto simp: handleCachedRequest_resume_def Let_def manageCacheSize_other
            cache_of_upd_other)
    have d: "distinct (map fst (cache_of (cache s) c))"
      and l: "length (cache_of (cache s) c) \<le> CACHE_LIMITS c"
      using assms by (simp_all add: caches_ok_all)
    have "distinct (map fst (cache_of (cache ?s') c'))
          \<and> length (cache_of (cache ?s') c') \<le> CACHE_LIMITS c'" for c'
    proof (cases "c' = c")
      case True
      then show ?thesis
        using cache_insert_bounded[OF d l CACHE_LIMITS_ge, of "(k, ?item)"] same by simp
    next
      case False
      then show ?thesis using other[OF False] assms by (simp add: caches_ok_all)
    qed
    then show ?thesis using Responded by (simp add: caches_ok_all)
  qed
qed

lemma cleared_caches_ok:
  fixes s :: "'p server"
  shows "caches_ok (s\<lparr>requestStats := r, cache := clear_caches\<rparr>)"
proof -
  have "cache_of (clear_caches :: 'p cache_store) c = []" for c :: category
    by (cases c) (simp_all add: clear_caches_def)
  then show ?thesis by (simp add: caches_ok_all)
qed

lemma step_caches_ok:
  assumes "caches_ok (srv y)"
  shows "caches_ok (srv (step e y))"
proof (cases e)
  case (Begin c k ta tb)
  obtain r s1 where a: "handleCachedRequest_sync c k ta tb (srv y) = (r, s1)"
    by (cases "handleCachedRequest_sync c k ta tb (srv y)")
  have "caches_ok s1" using sync_caches_ok[OF assms, of c k ta tb] a by simp
  then show ?thesis using Begin a by (cases r) simp_all
next
  case (Complete c k outcome tc td)
  then show ?thesis using assms resume_caches_ok[OF assms, of c k outcome tc td] by simp
next
  case (SessionCheck ta tb)
  then show ?thesis using assms by (simp add: checkSessionReset_def cleared_caches_ok)
next
  case (ManualReset t)
  then show ?thesis by (simp add: stats_reset_def cleared_caches_ok)
qed

lemma fold_step_caches_ok:
  "caches_ok (srv y) \<Longrightarrow> caches_ok (srv (fold step evs y))"
  by (induction evs arbitrary: y) (simp_all add: step_caches_ok del: step.simps)

lemma run_caches_ok:
  fixes evs :: "'p event list"
  shows "caches_ok (srv (run evs t0))"
proof -
  have "caches_ok (initial_server t0 :: 'p server)"
  proof -
    have "cache_of (cache (initial_server t0 :: 'p server)) c = []" for c :: category
      by (cases c) (simp_all add: initial_server_def)
    then show ?thesis by (simp add: caches_ok_all)
  qed
  then show ?thesis
    unfolding run_def by (intro fold_step_caches_ok) simp
qed

section \<open>The session quota\<close>

lemma sync_requestStats:
  "requestStats (snd (handleCachedRequest_sync c k ta tb s)) = requestStats s"
  by (simp add: handleCachedRequest_sync_def split: option.splits prod.splits)

lemma quota_gate:
  assumes "cache_fresh c k ta s = None"
    and "total_stat (requestStats s) \<ge> limit_stat (requestStats s)"
  shows "handleCachedRequest_sync c k ta tb s = (Throw QuotaExceeded, s)"
    and "handleCachedRequest c k ta tb outcome tc td s = (Inl QuotaExceeded, s)"
  using assms by (simp_all add: handleCachedRequest_def handleCachedRequest_sync_def)

lemma resume_total:
  "total_stat (requestStats (snd (handleCachedRequest_resume c k outcome tc td s)))
     \<le> total_stat (requestStats s) + 1"
  "limit_stat (requestStats (snd (handleCachedRequest_resume c k outcome tc td s)))
     = limit_stat (requestStats s)"
  by (simp_all add: handleCachedRequest_resume_def Let_def stat_incr_simps manageCacheSize_fields
        split: api_outcome.splits)

lemma request_within_limit:
  assumes "within_limit y"
  shows "within_limit (step (Complete c k outcome tc td) (step (Begin c k ta tb) y))"
proof (cases "fst (handleCachedRequest_sync c k ta tb (srv y)) = Await")
  case True
  obtain s1 where s1: "handleCachedRequest_sync c k ta tb (srv y) = (Await, s1)"
    using True by (cases "handleCachedRequest_sync c k ta tb (srv y)") simp
  have lt: "total_stat (requestStats (srv y)) < limit_stat (requestStats (srv y))"
    using sync_await(3)[OF True] .
  have rs: "requestStats s1 = requestStats (srv y)"
    using sync_requestStats[of c k ta tb "srv y"] s1 by simp
  show ?thesis
    using assms lt rs s1 resume_total[of c k outcome tc td s1]
    by (simp add: within_limit_def)
next
  case False
  obtain r s1 where s1: "handleCachedRequest_sync c k ta tb (srv y) = (r, s1)" and r: "r \<noteq> Await"
    using False by (cases "handleCachedRequest_sync c k ta tb (srv y)") simp
  have rs: "requestStats s1 = requestStats (srv y)"
    using sync_requestStats[of c k ta tb "srv y"] s1 by simp
  show ?thesis
    using assms rs s1 r by (cases r) (simp_all add: within_limit_def)
qed

lemma reset_within_limit:
  assumes "within_limit y"
  shows "within_limit (step (SessionCheck ta tb) y)" and "within_limit (step (ManualReset t) y)"
  using assms
  by (simp_all add: within_limit_def checkSessionReset_def stats_reset_def zero_counters_def)

lemma expand_within_limit:
  "within_limit y \<Longrightarrow> within_limit (fold step (expand e) y)"
  by (cases e) (simp_all del: step.simps add: request_within_limit reset_within_limit)

lemma sequential_fold:
  "within_limit y \<Longrightarrow> within_limit (fold step (concat (map expand es)) y)"
  by (induction es arbitrary: y) (simp_all add: expand_within_limit)

lemma sequential_runs_within_limit:
  fixes es :: "'p whole_event list"
  shows "total_stat (requestStats (srv (run (concat (map expand es)) t0)))
     \<le> limit_stat (requestStats (srv (run (concat (map expand es)) t0)))"
proof -
  have "within_limit (\<lparr>srv = initial_server t0, inflight = []\<rparr> :: 'p system)"
    by (simp add: within_limit_def initial_server_def)
  from sequential_fold[OF this, of es] show ?thesis
    by (simp add: within_limit_def run_def)
qed


text \<open>
  C4: \<^verbatim>\<open>total\<close> never exceeds \<^verbatim>\<open>limit\<close> in a reachable state. The limit is tested before
  the \<^verbatim>\<open>await\<close> (line 431) and the counter is incremented after it (line 451), so two
  requests that are both in flight at \<^verbatim>\<open>total = 49\<close> both pass the test and both
  count: the run \<open>overrun\<close> ends with 51 calls recorded against a limit of 50. The
  lemmas above are the part of the claim that holds: a miss at \<^verbatim>\<open>total >= limit\<close> throws
  before the call and changes nothing, and runs without overlap stay within the limit.
\<close>

theorem C4_overlapping_requests_exceed_limit:
  "requestStats (srv (run overrun 0))
     = \<lparr>total_stat = 51, geocoding_stat = 50, places_stat = 1, details_stat = 0,
        limit_stat = 50, lastReset = 0\<rparr>"
  by code_simp

section \<open>The geocode route\<close>

lemma geocode_sync_empty:
  "geocode_sync None ta tb s = (Replied (Status 400 ''Address is required''), s)"
  "geocode_sync (Some []) ta tb s = (Replied (Status 400 ''Address is required''), s)"
  by (simp_all add: geocode_sync_def)

text \<open>
  C7: an address that is empty or only white space is refused without an external call.
  The route tests \<^verbatim>\<open>!address\<close>, which is true of the empty string only. For the address
  of one space the route goes on to \<^verbatim>\<open>handleCachedRequest\<close> with the empty cache key, and
  on a server that has just started the external call is issued. The front end's
  \<^verbatim>\<open>fetchCoordinates\<close> tests \<^verbatim>\<open>!address.trim()\<close> and refuses the same address.
\<close>

theorem C7_blank_address_reaches_provider:
  "fst (geocode_sync (Some '' '') 1000 1000 (initial_server 0 :: unit server)) = AwaitingUpstream
   \<and> trim (toLowerCase '' '') = []
   \<and> fetchCoordinates_rejects '' ''"
  by code_simp

section \<open>Batches\<close>

lemma collect_results:
  "map fst (results (collect r acc))
     = map fst (results acc) @ (if is_failure r then [] else [address_of r])"
  "map fst (errors (collect r acc))
     = map fst (errors acc) @ (if is_failure r then [address_of r] else [])"
  by (cases r; simp add: is_failure_def address_of_def)+

lemma fold_collect:
  "map fst (results (fold collect rs acc))
     = map fst (results acc) @ map address_of (filter (\<lambda>r. \<not> is_failure r) rs)
   \<and> map fst (errors (fold collect rs acc))
     = map fst (errors acc) @ map address_of (filter is_failure rs)"
  by (induction rs arbitrary: acc) (simp_all add: collect_results)

lemma start_all_addresses: "map fst (fst (start_all items s)) = map fst items"
proof (induction items arbitrary: s)
  case Nil
  then show ?case by simp
next
  case (Cons x items)
  obtain address e where x: "x = (address, e)" by (cases x)
  obtain r s1 where a: "handleCachedRequest_sync Geocoding (trim (toLowerCase address))
      (t_check e) (t_second e) s = (r, s1)"
    by (cases "handleCachedRequest_sync Geocoding (trim (toLowerCase address))
      (t_check e) (t_second e) s")
  obtain slots s2 where b: "start_all items s1 = (slots, s2)"
    by (cases "start_all items s1")
  have "map fst slots = map fst items" using Cons.IH[of s1] b by simp
  then show ?case using x a b by simp
qed

lemma complete_slot_addresses: "map fst (fst (complete_slot i slots s)) = map fst slots"
  by (auto simp: complete_slot_def map_update list_update_same_conv
        split: prod.splits slot.splits)

lemma complete_in_order_addresses:
  "map fst (fst (complete_in_order ord slots s)) = map fst slots"
proof (induction ord arbitrary: slots s)
  case Nil
  then show ?case by simp
next
  case (Cons i rest)
  obtain slots1 s1 where c: "complete_slot i slots s = (slots1, s1)"
    by (cases "complete_slot i slots s")
  have "map fst slots1 = map fst slots"
    using complete_slot_addresses[of i slots s] c by simp
  with Cons.IH[of slots1 s1] c show ?case by simp
qed

lemma address_of_item [simp]: "address_of (item_of a r) = a"
  by (cases r) (simp_all add: address_of_def)

lemma settle_rest_addresses: "map address_of (fst (settle_rest slots s)) = map fst slots"
proof (induction slots arbitrary: s)
  case Nil
  then show ?case by simp
next
  case (Cons x slots)
  obtain address sl where x: "x = (address, sl)" by (cases x)
  show ?case
  proof (cases sl)
    case (Settled r)
    obtain rs s1 where b: "settle_rest slots s = (rs, s1)" by (cases "settle_rest slots s")
    have "map address_of rs = map fst slots" using Cons.IH[of s] b by simp
    then show ?thesis using x Settled b by simp
  next
    case (Pending e)
    obtain r s1 where a: "handleCachedRequest_resume Geocoding (trim (toLowerCase address))
        (upstream e) (t_store e) (t_access e) s = (r, s1)"
      by (cases "handleCachedRequest_resume Geocoding (trim (toLowerCase address))
        (upstream e) (t_store e) (t_access e) s")
    obtain rs s2 where b: "settle_rest slots s1 = (rs, s2)" by (cases "settle_rest slots s1")
    have "map address_of rs = map fst slots" using Cons.IH[of s1] b by simp
    then show ?thesis using x Pending a b by simp
  qed
qed

lemma batch_group_collects:
  "\<exists>rs. map address_of rs = take 5 (drop i addresses)
       \<and> fst (batch_group i addresses env ord acc s) = fold collect rs acc"
proof -
  let ?batch = "take 5 (drop i addresses)"
  let ?items = "zip ?batch (map env [i..<i + length ?batch])"
  obtain slots s1 where a: "start_all ?items s = (slots, s1)"
    by (cases "start_all ?items s")
  obtain slots1 s2 where b: "complete_in_order (ord i) slots s1 = (slots1, s2)"
    by (cases "complete_in_order (ord i) slots s1")
  obtain rs s3 where c: "settle_rest slots1 s2 = (rs, s3)"
    by (cases "settle_rest slots1 s2")
  have "map fst slots = map fst ?items"
    using start_all_addresses[of ?items s] a by simp
  also have "\<dots> = ?batch" by simp
  finally have 1: "map fst slots = ?batch" .
  have 2: "map fst slots1 = map fst slots"
    using complete_in_order_addresses[of "ord i" slots s1] b by simp
  have 3: "map address_of rs = map fst slots1"
    using settle_rest_addresses[of slots1 s2] c by simp
  have "fst (batch_group i addresses env ord acc s) = fold collect rs acc"
    using a b c by (simp add: batch_group_def Let_def)
  with 1 2 3 show ?thesis by auto
qed

lemma batch_loop_collects:
  "\<exists>rs. map address_of rs = drop i addresses
       \<and> fst (batch_loop i addresses env ord acc s) = fold collect rs acc"
proof (induction i addresses env ord acc s rule: batch_loop.induct)
  case (1 i addresses env ord acc s)
  show ?case
  proof (cases "i < length addresses")
    case False
    then have "fst (batch_loop i addresses env ord acc s) = fold collect [] acc"
      by (simp add: batch_loop.simps[of i])
    moreover have "map address_of [] = drop i addresses" using False by simp
    ultimately show ?thesis by blast
  next
    case True
    obtain acc1 s1 where g: "batch_group i addresses env ord acc s = (acc1, s1)"
      by (cases "batch_group i addresses env ord acc s")
    obtain rs1 where r1: "map address_of rs1 = take 5 (drop i addresses)"
        "acc1 = fold collect rs1 acc"
      using batch_group_collects[of i addresses env ord acc s] g by auto
    obtain rs2 where r2: "map address_of rs2 = drop (i + 5) addresses"
        "fst (batch_loop (i + 5) addresses env ord acc1 s1) = fold collect rs2 acc1"
      using "1.IH"[OF True g[symmetric]] by auto
    have l: "fst (batch_loop i addresses env ord acc s) = fold collect (rs1 @ rs2) acc"
      using True g r1(2) r2(2) by (simp add: batch_loop.simps[of i])
    have "take 5 (drop i addresses) @ drop (i + 5) addresses = drop i addresses"
      by (metis add.commute append_take_drop_id drop_drop)
    then have "map address_of (rs1 @ rs2) = drop i addresses"
      using r1(1) r2(1) by simp
    with l show ?thesis by blast
  qed
qed

lemma split_by_filter:
  "split_by (map P xs) xs = (filter P xs, filter (\<lambda>x. \<not> P x) xs)"
  by (induction xs) simp_all

lemma split_by_map:
  "length bs = length xs \<Longrightarrow>
   split_by bs (map f xs) = (map f (fst (split_by bs xs)), map f (snd (split_by bs xs)))"
  by (induction bs xs rule: list_induct2) (simp_all split: prod.splits)

lemma split_by_length:
  "length bs = length xs \<Longrightarrow>
   length (fst (split_by bs xs)) + length (snd (split_by bs xs)) = length xs"
  by (induction bs xs rule: list_induct2) (auto split: prod.splits)

text \<open>
  C8: for a non-empty list of addresses the batch route answers with a result, whatever
  the individual fetches do, and the addresses under \<^verbatim>\<open>results\<close> and under \<^verbatim>\<open>errors\<close> are
  two complementary subsequences of the input: every input is in exactly one of them,
  and each sequence keeps the input's order. Only an empty or missing list is refused as
  a whole.
\<close>

theorem C8_batch_partition:
  assumes "addresses \<noteq> []"
  shows "(\<exists>r s'. geocode_batch (Some addresses) env ord s = (BatchJson r, s')
            \<and> (\<exists>bs. length bs = length addresses
                  \<and> split_by bs addresses = (map fst (results r), map fst (errors r)))
            \<and> length (results r) + length (errors r) = length addresses)
       \<and> geocode_batch (Some []) env ord s = (BatchStatus 400 ''Array of addresses is required'', s)
       \<and> geocode_batch None env ord s = (BatchStatus 400 ''Array of addresses is required'', s)"
proof -
  obtain r s' where b: "batchGeocode addresses env ord s = (r, s')"
    by (cases "batchGeocode addresses env ord s")
  obtain rs where rs: "map address_of rs = addresses"
      "r = fold collect rs \<lparr>results = [], errors = []\<rparr>"
    using batch_loop_collects[of 0 addresses env ord "\<lparr>results = [], errors = []\<rparr>" s] b
    by (auto simp: batchGeocode_def)
  let ?P = "\<lambda>x. \<not> is_failure x"
  let ?bs = "map ?P rs"
  have res: "map fst (results r) = map address_of (filter ?P rs)"
    and err: "map fst (errors r) = map address_of (filter is_failure rs)"
    using fold_collect[of rs "\<lparr>results = [], errors = []\<rparr>"] rs(2) by simp_all
  have len: "length ?bs = length addresses"
    using rs(1) by (metis length_map)
  have "split_by ?bs addresses = split_by ?bs (map address_of rs)"
    using rs(1) by simp
  also have "\<dots> = (map address_of (fst (split_by ?bs rs)), map address_of (snd (split_by ?bs rs)))"
    by (rule split_by_map) simp
  also have "\<dots> = (map fst (results r), map fst (errors r))"
    by (simp add: split_by_filter res err)
  finally have sp: "split_by ?bs addresses = (map fst (results r), map fst (errors r))" .
  have "length (results r) + length (errors r)
          = length (fst (split_by ?bs addresses)) + length (snd (split_by ?bs addresses))"
    unfolding sp by simp
  also have "\<dots> = length addresses"
    by (rule split_by_length[OF len])
  finally have tot: "length (results r) + length (errors r) = length addresses" .
  have part: "\<exists>bs. length bs = length addresses
                \<and> split_by bs addresses = (map fst (results r), map fst (errors r))"
    using len sp by blast
  have run: "geocode_batch (Some addresses) env ord s = (BatchJson r, s')"
    using assms b by (simp add: geocode_batch_def)
  have "\<exists>r s'. geocode_batch (Some addresses) env ord s = (BatchJson r, s')
            \<and> (\<exists>bs. length bs = length addresses
                  \<and> split_by bs addresses = (map fst (results r), map fst (errors r)))
            \<and> length (results r) + length (errors r) = length addresses"
    using run part tot by blast
  then show ?thesis
    by (simp add: geocode_batch_def)
qed

theorem C8_batch_partition_witness:
  "seven \<noteq> []
   \<and> (\<exists>r s'. geocode_batch (Some seven) steady_env in_order (initial_server 0) = (BatchJson r, s')
         \<and> (\<exists>bs. length bs = length seven
               \<and> split_by bs seven = (map fst (results r), map fst (errors r)))
         \<and> length (results r) + length (errors r) = length seven)"
  using C8_batch_partition[of seven steady_env in_order "initial_server 0"]
  by (simp add: seven_def)

section \<open>Midpoint\<close>

text \<open>
  C10: with exactly two coordinates the midpoint is the mean of the two latitudes and the
  mean of the two longitudes; it is the centre of the map and, once the map is loaded, the
  centre of the nearby search. With fewer than two coordinates the centre is the fixed
  point (38.5816, -121.4944) and no search is made.
\<close>

theorem C10_midpoint:
  "(length coords = 2 \<longrightarrow>
      midpoint coords = \<lparr>lat = (lat (coords ! 0) + lat (coords ! 1)) / 2,
                         lng = (lng (coords ! 0) + lng (coords ! 1)) / 2\<rparr>
    \<and> map_center coords = midpoint coords
    \<and> nearby_search True coords
        = Some ((lat (coords ! 0) + lat (coords ! 1)) / 2,
                (lng (coords ! 0) + lng (coords ! 1)) / 2, ONE_MILE_IN_METERS))
   \<and> (length coords < 2 \<longrightarrow>
      map_center coords = \<lparr>lat = 38.5816, lng = - 121.4944\<rparr>
    \<and> nearby_search loaded coords = None)"
  by (simp add: midpoint_def map_center_def nearby_search_def)

theorem C10_midpoint_witness:
  "midpoint [\<lparr>lat = 38, lng = - 121\<rparr>, \<lparr>lat = 39, lng = - 122\<rparr>] = \<lparr>lat = 77 / 2, lng = - 243 / 2\<rparr>
   \<and> map_center [\<lparr>lat = 38, lng = - 121\<rparr>] = \<lparr>lat = 38.5816, lng = - 121.4944\<rparr>"
  using C10_midpoint[of "[\<lparr>lat = 38, lng = - 121\<rparr>, \<lparr>lat = 39, lng = - 122\<rparr>]"]
    C10_midpoint[of "[\<lparr>lat = 38, lng = - 121\<rparr>]"]
  by simp

end
